theory Spec2Isabelle
  imports Complex_Main
begin

section \<open>COG tile rendering (app/lib/cogLayerClient.ts)\<close>

text \<open>
  The client renders tiles of two cloud-optimised GeoTIFF layers, \<open>fuel\<close> and \<open>slope\<close>.
  JavaScript numbers are modelled as mathematical reals (no rounding, no infinities);
  pixel sizes, image indices and colour channels are natural numbers or integers.
\<close>

subsection \<open>Configuration\<close>

datatype CogLayerName = fuel | slope

definition MAX_CONCURRENT :: nat where
  "MAX_CONCURRENT = 6"

definition SAFE_SOURCE_PIXELS :: int where
  "SAFE_SOURCE_PIXELS = 4000000"

definition HARD_LIMIT_SOURCE_PIXELS :: int where
  "HARD_LIMIT_SOURCE_PIXELS = 50000000"

text \<open>A bounding box is the array \<open>[minLon, minLat, maxLon, maxLat]\<close>.\<close>

type_synonym bbox = "real \<times> real \<times> real \<times> real"

definition COG_BOUNDS :: bbox where
  "COG_BOUNDS = (-128.38690525209998, 22.428354333912164, -64.05404295852681, 52.481560035612816)"

subsection \<open>Tile geometry\<close>

text \<open>
  \<open>tileToBBox\<close> read in exact arithmetic: \<open>Math.pow(2, z)\<close> is \<open>2 powr z\<close>, the
  latitude is the inverse spherical Mercator. The jobs below take their tile box from this
  reading; \<open>tileToBBox_double\<close> further down is the same function with the rounding of
  doubles.
\<close>

definition tileToBBox :: "real \<Rightarrow> real \<Rightarrow> real \<Rightarrow> bbox" where
  "tileToBBox x y z =
     (let n = 2 powr z;
          lonMin = (x / n) * 360 - 180;
          lonMax = ((x + 1) / n) * 360 - 180;
          latMin = (arctan (sinh (pi * (1 - 2 * (y + 1) / n))) * 180) / pi;
          latMax = (arctan (sinh (pi * (1 - 2 * y / n))) * 180) / pi
      in (lonMin, latMin, lonMax, latMax))"

fun bboxesIntersect :: "bbox \<Rightarrow> bbox \<Rightarrow> bool" where
  "bboxesIntersect (aMinX, aMinY, aMaxX, aMaxY) (bMinX, bMinY, bMaxX, bMaxY) =
     (\<not> (aMaxX < bMinX \<or> aMinX > bMaxX \<or> aMaxY < bMinY \<or> aMinY > bMaxY))"

text \<open>The well-formedness invariant of a box, and the region a box denotes.\<close>

fun wellFormed :: "bbox \<Rightarrow> bool" where
  "wellFormed (minLon, minLat, maxLon, maxLat) = (minLon \<le> maxLon \<and> minLat \<le> maxLat)"

fun strictlyWellFormed :: "bbox \<Rightarrow> bool" where
  "strictlyWellFormed (minLon, minLat, maxLon, maxLat) = (minLon < maxLon \<and> minLat < maxLat)"

fun inBox :: "bbox \<Rightarrow> real \<times> real \<Rightarrow> bool" where
  "inBox (minLon, minLat, maxLon, maxLat) (lon, lat) =
     (minLon \<le> lon \<and> lon \<le> maxLon \<and> minLat \<le> lat \<and> lat \<le> maxLat)"

subsection \<open>Tile geometry in double precision\<close>

text \<open>
  JavaScript computes \<open>tileToBBox\<close> in IEEE 754 doubles. \<open>fl\<close> rounds a real to the
  nearest number with a 53-bit significand, halves to the even significand; the exponent
  range is not bounded, which no value below comes near. Every arithmetic operation of
  the source is followed by \<open>fl\<close>. \<open>Math.pow(2, z)\<close> is the rounded power, \<open>Math.PI\<close>
  the double nearest to \<open>\<pi>\<close>. \<open>Math.sinh\<close> and \<open>Math.atan\<close> are library functions whose
  results the language leaves to the implementation: they are parameters, and
  \<open>accurate\<close> asks of them an absolute error of at most \<open>10^-9\<close> (on \<open>|t| \<le> 4\<close> for
  \<open>Math.sinh\<close>).
\<close>

definition roundEven :: "real \<Rightarrow> int" where
  "roundEven m =
     (let f = \<lfloor>m\<rfloor>; d = m - of_int f
      in if d < 1 / 2 then f else if 1 / 2 < d then f + 1 else if even f then f else f + 1)"

definition fl :: "real \<Rightarrow> real" where
  "fl r =
     (if r = 0 then 0
      else
        (let e = \<lfloor>log 2 \<bar>r\<bar>\<rfloor>;
             u = 2 powr (of_int e - 52)
         in sgn r * of_int (roundEven (\<bar>r\<bar> / u)) * u))"

definition Math_PI :: real where
  "Math_PI = 884279719003555 / 281474976710656"

definition tileToBBox_double :: "(real \<Rightarrow> real) \<Rightarrow> (real \<Rightarrow> real) \<Rightarrow> real \<Rightarrow> real \<Rightarrow> real \<Rightarrow> bbox" where
  "tileToBBox_double Math_sinh Math_atan x y z =
     (let n = fl (2 powr z);
          lonMin = fl (fl (fl (x / n) * 360) - 180);
          lonMax = fl (fl (fl (fl (x + 1) / n) * 360) - 180);
          latMin = fl (fl (Math_atan (Math_sinh
                     (fl (Math_PI * fl (1 - fl (fl (2 * fl (y + 1)) / n))))) * 180) / Math_PI);
          latMax = fl (fl (Math_atan (Math_sinh
                     (fl (Math_PI * fl (1 - fl (fl (2 * y) / n))))) * 180) / Math_PI)
      in (lonMin, latMin, lonMax, latMax))"

definition accurate :: "(real \<Rightarrow> real) \<Rightarrow> (real \<Rightarrow> real) \<Rightarrow> bool" where
  "accurate Math_sinh Math_atan =
     ((\<forall>t. \<bar>t\<bar> \<le> 4 \<longrightarrow> \<bar>Math_sinh t - sinh t\<bar> \<le> 1 / 10 ^ 9)
      \<and> (\<forall>s. \<bar>Math_atan s - arctan s\<bar> \<le> 1 / 10 ^ 9))"

subsection \<open>Colour maps and the legend\<close>

record ColorMapEntry =
  label :: string
  color :: string

type_synonym legend = "string \<rightharpoonup> ColorMapEntry"

type_synonym rgb = "int \<times> int \<times> int"

definition SLOPE_COLORMAP :: "(real \<times> string) list" where
  "SLOPE_COLORMAP =
     [(0, ''#f7fcf5''), (5, ''#e5f5e0''), (10, ''#c7e9c0''), (15, ''#a1d99b''), (20, ''#74c476''),
      (25, ''#41ab5d''), (30, ''#238b45''), (35, ''#006d2c''), (40, ''#00441b'')]"

text \<open>The mapping \<open>fetchFuelLegend\<close> returns when the request fails.\<close>

definition defaultFuelLegend :: legend where
  "defaultFuelLegend =
     [''1'' \<mapsto> \<lparr>label = ''Type 1'', color = ''#f7fcb9''\<rparr>,
      ''2'' \<mapsto> \<lparr>label = ''Type 2'', color = ''#addd8e''\<rparr>,
      ''3'' \<mapsto> \<lparr>label = ''Type 3'', color = ''#78c679''\<rparr>]"

text \<open>
  One character of the class \<open>[a-f\d]\<close> under the flag \<open>i\<close>, with the value
  \<open>parseInt\<close> gives it in base 16.
\<close>

definition hexDigit :: "char \<Rightarrow> int option" where
  "hexDigit c =
     (if c \<in> set ''0123456789'' then Some (of_char c - 48)
      else if c \<in> set ''abcdef'' then Some (of_char c - 87)
      else if c \<in> set ''ABCDEF'' then Some (of_char c - 55)
      else None)"

text \<open>
  \<open>hexToRgb\<close>: the pattern \<open>^#?([a-f\d]{2})([a-f\d]{2})([a-f\d]{2})$\<close> accepts an optional
  \<open>#\<close> followed by exactly six hexadecimal digits; anything else gives the grey
  \<open>[200, 200, 200]\<close>.
\<close>

definition hexToRgb :: "string \<Rightarrow> rgb" where
  "hexToRgb hex =
     (let body = (case hex of c # rest \<Rightarrow> (if c = CHR ''#'' then rest else hex) | [] \<Rightarrow> hex)
      in case map hexDigit body of
           [Some r1, Some r2, Some g1, Some g2, Some b1, Some b2] \<Rightarrow>
             (16 * r1 + r2, 16 * g1 + g2, 16 * b1 + b2)
         | _ \<Rightarrow> (200, 200, 200))"

text \<open>
  The loop of \<open>getSlopeColor\<close> over neighbouring stops: the first pair that brackets the
  value decides. \<open>Math.round\<close> is \<open>round\<close> (halves go up). The interpolation is exact
  here; in doubles a channel that falls on a half can round the other way.
\<close>

fun slopeStops :: "(real \<times> string) list \<Rightarrow> real \<Rightarrow> rgb option" where
  "slopeStops ((v1, c1) # (v2, c2) # rest) v =
     (if v \<ge> v1 \<and> v \<le> v2 then
        (let t = (v - v1) / (v2 - v1);
             rgb1 = hexToRgb c1;
             rgb2 = hexToRgb c2
         in case (rgb1, rgb2) of ((r1, g1, b1), (r2, g2, b2)) \<Rightarrow>
              Some (round (real_of_int r1 + real_of_int (r2 - r1) * t),
                    round (real_of_int g1 + real_of_int (g2 - g1) * t),
                    round (real_of_int b1 + real_of_int (b2 - b1) * t)))
      else slopeStops ((v2, c2) # rest) v)"
| "slopeStops _ v = None"

definition getSlopeColor :: "real \<Rightarrow> rgb" where
  "getSlopeColor v =
     (case slopeStops SLOPE_COLORMAP v of
        Some c \<Rightarrow> c
      | None \<Rightarrow>
          if v < fst (hd SLOPE_COLORMAP) then hexToRgb (snd (hd SLOPE_COLORMAP))
          else hexToRgb (snd (last SLOPE_COLORMAP)))"

text \<open>
  \<open>Number.prototype.toString\<close> on an integer: its decimal digits, with a sign. This is
  what JavaScript prints for an integer below \<open>2^53\<close> in magnitude; from there on it prints
  the shortest digits that read back as the same double, and from \<open>10^21\<close> on an exponent.
\<close>

fun digits :: "nat \<Rightarrow> string" where
  "digits n = (if n < 10 then [''0123456789'' ! n] else digits (n div 10) @ [''0123456789'' ! (n mod 10)])"

declare digits.simps [simp del]

definition numberToString :: "int \<Rightarrow> string" where
  "numberToString i = (if i < 0 then CHR ''-'' # digits (nat (- i)) else digits (nat i))"

subsection \<open>Samples and pixels\<close>

text \<open>An entry of a band: \<open>null\<close>, \<open>undefined\<close>, \<open>NaN\<close> or a number.\<close>

datatype sample = SNull | SUndefined | SNaN | SNum real

text \<open>The test \<open>value === null || value === undefined || isNaN(value) || value < 0\<close>.\<close>

fun isNoData :: "sample \<Rightarrow> bool" where
  "isNoData SNull = True"
| "isNoData SUndefined = True"
| "isNoData SNaN = True"
| "isNoData (SNum v) = (v < 0)"

text \<open>
  The four bytes one iteration of the colouring loop writes for a sample: the no-data test
  comes first, then the branch on the layer.
\<close>

fun pixelOf :: "CogLayerName \<Rightarrow> legend option \<Rightarrow> sample \<Rightarrow> int \<times> int \<times> int \<times> int" where
  "pixelOf layerName fuelLegend (SNum v) =
     (if v < 0 then (0, 0, 0, 0)
      else
        (let rgb =
           (if layerName = slope then getSlopeColor v
            else
              (let key = numberToString (round v);
                   entry = (case fuelLegend of None \<Rightarrow> None | Some lg \<Rightarrow> lg key)
               in case entry of Some e \<Rightarrow> hexToRgb (color e) | None \<Rightarrow> (200, 200, 200)))
         in case rgb of (r, g, b) \<Rightarrow> (r, g, b, 255)))"
| "pixelOf layerName fuelLegend _ = (0, 0, 0, 0)"

text \<open>
  Writing pixel \<open>i\<close> into the RGBA byte array; a typed array ignores a write past its end,
  as \<open>list_update\<close> does.
\<close>

fun writePixel :: "int list \<Rightarrow> nat \<Rightarrow> int \<times> int \<times> int \<times> int \<Rightarrow> int list" where
  "writePixel data i (r, g, b, a) = data[i * 4 := r, i * 4 + 1 := g, i * 4 + 2 := b, i * 4 + 3 := a]"

text \<open>The loop \<open>for (let i = 0; i < band.length; i++)\<close>, started at index \<open>i\<close>.\<close>

fun paint :: "CogLayerName \<Rightarrow> legend option \<Rightarrow> sample list \<Rightarrow> nat \<Rightarrow> int list \<Rightarrow> int list" where
  "paint layerName fuelLegend [] i data = data"
| "paint layerName fuelLegend (v # band) i data =
     paint layerName fuelLegend band (i + 1) (writePixel data i (pixelOf layerName fuelLegend v))"


subsection \<open>The GeoTIFF, the calls a job makes and what it delivers\<close>

text \<open>An error value is the message of the \<open>Error\<close> thrown or passed to \<open>done\<close>.\<close>

type_synonym exn = string

text \<open>
  An image of the file: its pixel size and, for the primary image, the georeference.
  \<open>getBoundingBox\<close> is \<open>None\<close> when the call throws; the two tags are the entries the
  fallback reads, \<open>(mt[3], mt[4])\<close> and \<open>(mps[0], mps[1])\<close>, or \<open>None\<close> when the tag is
  absent.
\<close>

record tiffImage =
  getWidth :: nat
  getHeight :: nat
  getBoundingBox :: "bbox option"
  ModelTiepoint :: "(real \<times> real) option"
  ModelPixelScale :: "(real \<times> real) option"

text \<open>
  The opened file. Every request may be rejected (\<open>Inl\<close>). \<open>readRasters n i box w h\<close>
  is the answer to \<open>readRasters({bbox: box, width: w, height: h})\<close> on image \<open>i\<close> when
  \<open>n\<close> reads have been made by the job before it, so a second read of the same image
  may answer differently from the first.
\<close>

record geotiff =
  getImageCount :: "exn + nat"
  getImage :: "int \<Rightarrow> exn + tiffImage"
  readRasters :: "nat \<Rightarrow> int \<Rightarrow> bbox \<Rightarrow> nat \<Rightarrow> nat \<Rightarrow> exn + sample list list"

text \<open>
  What surrounds one job: the answer of \<open>fromUrl\<close>, whether the canvas has a 2d context,
  and the legend the server returns (\<open>None\<close>: the request fails).
\<close>

record world =
  fromUrl :: "exn + geotiff"
  getContext :: bool
  legendResponse :: "legend option"

text \<open>The network and decode calls of a job, in order.\<close>

datatype io =
    FromUrl
  | GetImageCount
  | GetImage int
  | ReadRasters int bbox nat nat
  | FetchLegend

text \<open>
  The end of a job: the calls made, the error passed to \<open>done\<close> (\<open>None\<close> for
  \<open>done(undefined, canvas)\<close>), the RGBA bytes of the canvas, and the legend cache.
\<close>

record run =
  calls :: "io list"
  doneErr :: "exn option"
  canvas :: "int list"
  legendCache :: "legend option"

text \<open>
  The canvas is square, \<open>tileSize\<close> on each side (the layer is created with
  \<open>tileSize: 256\<close>). \<open>clearRect\<close> runs only when the context exists.
\<close>

definition clearRect :: "world \<Rightarrow> nat \<Rightarrow> int list \<Rightarrow> int list" where
  "clearRect w tileSize px = (if getContext w then replicate (4 * tileSize * tileSize) 0 else px)"

definition transparent :: "io list \<Rightarrow> world \<Rightarrow> nat \<Rightarrow> int list \<Rightarrow> legend option \<Rightarrow> run" where
  "transparent cs w tileSize px cache =
     \<lparr>calls = cs, doneErr = None, canvas = clearRect w tileSize px, legendCache = cache\<rparr>"

definition failed :: "io list \<Rightarrow> exn \<Rightarrow> int list \<Rightarrow> legend option \<Rightarrow> run" where
  "failed cs e px cache = \<lparr>calls = cs, doneErr = Some e, canvas = px, legendCache = cache\<rparr>"

definition fetchFuelLegend :: "legend option \<Rightarrow> legend option \<Rightarrow> legend \<times> legend option \<times> io list" where
  "fetchFuelLegend cache response =
     (case cache of
        Some lg \<Rightarrow> (lg, cache, [])
      | None \<Rightarrow>
          (case response of
             Some lg \<Rightarrow> (lg, Some lg, [FetchLegend])
           | None \<Rightarrow> (defaultFuelLegend, None, [FetchLegend])))"

subsection \<open>Georeference and overview selection\<close>

definition imageBoundingBox :: "tiffImage \<Rightarrow> bbox option" where
  "imageBoundingBox baseImage =
     (case getBoundingBox baseImage of
        Some b \<Rightarrow> Some b
      | None \<Rightarrow>
          (case (ModelTiepoint baseImage, ModelPixelScale baseImage) of
             (Some (tieX, tieY), Some (scaleX, scaleY)) \<Rightarrow>
               (let w = real (getWidth baseImage); h = real (getHeight baseImage)
                in Some (tieX, tieY - scaleY * h, tieX + scaleX * w, tieY))
           | _ \<Rightarrow> None))"

text \<open>
  The estimate, in exact arithmetic. In doubles a quotient can round up before
  \<open>Math.ceil\<close>, so that the code's estimate can be one row or column larger than this
  one; the selection below is stated for whatever the estimate is.
\<close>

fun computeSourcePixels :: "bbox \<Rightarrow> bbox \<Rightarrow> tiffImage \<Rightarrow> int" where
  "computeSourcePixels (tMinX, tMinY, tMaxX, tMaxY) (imgMinX, imgMinY, imgMaxX, imgMaxY) img =
     (let imgW = real (getWidth img);
          imgH = real (getHeight img);
          imgWidthDeg = imgMaxX - imgMinX;
          imgHeightDeg = imgMaxY - imgMinY;
          clampedMinX = max tMinX imgMinX;
          clampedMaxX = min tMaxX imgMaxX;
          clampedMinY = max tMinY imgMinY;
          clampedMaxY = min tMaxY imgMaxY
      in if clampedMaxX \<le> clampedMinX \<or> clampedMaxY \<le> clampedMinY then 0
         else
           (let pxW = \<lceil>((clampedMaxX - clampedMinX) / imgWidthDeg) * imgW\<rceil>;
                pxH = \<lceil>((clampedMaxY - clampedMinY) / imgHeightDeg) * imgH\<rceil>
            in pxW * pxH))"

text \<open>
  The loop \<open>for (let i = imageCount - 1; i >= 0; i--)\<close>, with \<open>k = i + 1\<close> images still
  to look at. \<open>Inr None\<close>: the loop ended without a \<open>break\<close>.
\<close>

fun scanOverviews ::
  "geotiff \<Rightarrow> (tiffImage \<Rightarrow> int) \<Rightarrow> nat \<Rightarrow> io list \<times> (exn + (int \<times> tiffImage \<times> int) option)" where
  "scanOverviews tiff est 0 = ([], Inr None)"
| "scanOverviews tiff est (Suc i) =
     (case getImage tiff (int i) of
        Inl e \<Rightarrow> ([GetImage (int i)], Inl e)
      | Inr img \<Rightarrow>
          (let pix = est img
           in if pix = 0 then ([GetImage (int i)], Inr (Some (int i, img, pix)))
              else if pix \<le> SAFE_SOURCE_PIXELS then ([GetImage (int i)], Inr (Some (int i, img, pix)))
              else (case scanOverviews tiff est i of (cs, r) \<Rightarrow> (GetImage (int i) # cs, r))))"

definition chooseOverview ::
  "geotiff \<Rightarrow> nat \<Rightarrow> (tiffImage \<Rightarrow> int) \<Rightarrow> io list \<times> (exn + int \<times> tiffImage \<times> int)" where
  "chooseOverview tiff imageCount est =
     (let chosenIndex = int imageCount - 1
      in case getImage tiff chosenIndex of
           Inl e \<Rightarrow> ([GetImage chosenIndex], Inl e)
         | Inr chosenImage \<Rightarrow>
             (let chosenPixels = est chosenImage
              in case scanOverviews tiff est imageCount of
                   (cs, Inl e) \<Rightarrow> (GetImage chosenIndex # cs, Inl e)
                 | (cs, Inr None) \<Rightarrow>
                     (GetImage chosenIndex # cs, Inr (chosenIndex, chosenImage, chosenPixels))
                 | (cs, Inr (Some sel)) \<Rightarrow> (GetImage chosenIndex # cs, Inr sel)))"

text \<open>What the job knows once an overview is chosen.\<close>

record selection =
  selTiff :: geotiff
  selImageCount :: nat
  selImgBbox :: bbox
  selIndex :: int
  selImage :: tiffImage
  selPixels :: int
  selCalls :: "io list"

text \<open>
  The job up to the choice of the overview: the two bounds checks, opening the file, the
  georeference and the scan. \<open>Inl\<close> is a job that ended there.
\<close>

definition prepare :: "world \<Rightarrow> bbox \<Rightarrow> nat \<Rightarrow> int list \<Rightarrow> legend option \<Rightarrow> run + selection" where
  "prepare w tileBounds tileSize px cache =
     (if \<not> bboxesIntersect tileBounds COG_BOUNDS then Inl (transparent [] w tileSize px cache)
      else
        case fromUrl w of
          Inl e \<Rightarrow> Inl (failed [FromUrl] e px cache)
        | Inr tiff \<Rightarrow>
            (case getImageCount tiff of
               Inl e \<Rightarrow> Inl (failed [FromUrl, GetImageCount] e px cache)
             | Inr imageCount \<Rightarrow>
                 (case getImage tiff 0 of
                    Inl e \<Rightarrow> Inl (failed [FromUrl, GetImageCount, GetImage 0] e px cache)
                  | Inr baseImage \<Rightarrow>
                      (case imageBoundingBox baseImage of
                         None \<Rightarrow>
                           Inl (failed [FromUrl, GetImageCount, GetImage 0]
                                  ''No georeference information'' px cache)
                       | Some imgBbox \<Rightarrow>
                           if \<not> bboxesIntersect tileBounds imgBbox
                           then Inl (transparent [FromUrl, GetImageCount, GetImage 0] w tileSize px cache)
                           else
                             (case chooseOverview tiff imageCount (computeSourcePixels tileBounds imgBbox) of
                                (cs, Inl e) \<Rightarrow>
                                  Inl (failed ([FromUrl, GetImageCount, GetImage 0] @ cs) e px cache)
                              | (cs, Inr (chosenIndex, chosenImage, chosenPixels)) \<Rightarrow>
                                  Inr \<lparr>selTiff = tiff, selImageCount = imageCount, selImgBbox = imgBbox,
                                       selIndex = chosenIndex, selImage = chosenImage,
                                       selPixels = chosenPixels,
                                       selCalls = [FromUrl, GetImageCount, GetImage 0] @ cs\<rparr>)))))"

subsection \<open>Hard limit, read and colouring\<close>

text \<open>
  The read of the chosen overview and, when it throws, the one read of the smallest
  overview. The box passed is \<open>imgBbox\<close>, the size \<open>tileSize\<close> both ways.
\<close>

definition readWithFallback ::
  "geotiff \<Rightarrow> nat \<Rightarrow> int \<Rightarrow> bbox \<Rightarrow> nat \<Rightarrow> io list \<times> (exn + sample list list)" where
  "readWithFallback tiff imageCount chosenIndex imgBbox tileSize =
     (case readRasters tiff 0 chosenIndex imgBbox tileSize tileSize of
        Inr rasters \<Rightarrow> ([ReadRasters chosenIndex imgBbox tileSize tileSize], Inr rasters)
      | Inl err \<Rightarrow>
          (let smallest = int imageCount - 1
           in case getImage tiff smallest of
                Inl err2 \<Rightarrow>
                  ([ReadRasters chosenIndex imgBbox tileSize tileSize, GetImage smallest], Inl err2)
              | Inr fallback \<Rightarrow>
                  (case readRasters tiff 1 smallest imgBbox tileSize tileSize of
                     Inl err2 \<Rightarrow>
                       ([ReadRasters chosenIndex imgBbox tileSize tileSize, GetImage smallest,
                         ReadRasters smallest imgBbox tileSize tileSize], Inl err2)
                   | Inr rasters \<Rightarrow>
                       ([ReadRasters chosenIndex imgBbox tileSize tileSize, GetImage smallest,
                         ReadRasters smallest imgBbox tileSize tileSize], Inr rasters))))"

text \<open>
  From the rasters to the painted canvas: \<open>band\<close> is the first raster, the context is
  checked, the legend is fetched for the fuel layer, the loop runs and the image is put on
  the canvas. With no raster at all \<open>band.length\<close> throws a \<open>TypeError\<close>.
\<close>

definition colorize ::
  "world \<Rightarrow> CogLayerName \<Rightarrow> nat \<Rightarrow> int list \<Rightarrow> legend option \<Rightarrow> io list \<Rightarrow> sample list list \<Rightarrow> run" where
  "colorize w layerName tileSize px cache cs rasters =
     (if \<not> getContext w then failed cs ''Cannot get canvas context'' px cache
      else
        (let data = replicate (4 * tileSize * tileSize) 0;
             fetched = (if layerName = fuel
                        then (case fetchFuelLegend cache (legendResponse w) of
                                (lg, cache', lc) \<Rightarrow> (Some lg, cache', lc))
                        else (None, cache, []))
         in case fetched of (fuelLegend, cache', lc) \<Rightarrow>
              (case rasters of
                 [] \<Rightarrow> failed (cs @ lc) ''TypeError'' px cache'
               | band # _ \<Rightarrow>
                   \<lparr>calls = cs @ lc, doneErr = None,
                    canvas = paint layerName fuelLegend band 0 data, legendCache = cache'\<rparr>)))"

text \<open>
  The job after the choice of the overview: the hard limit (the slope layer gives up with
  a cleared canvas and \<open>done(undefined, canvas)\<close>; the fuel layer takes the smallest
  overview again), the read, the colouring.
\<close>

definition render :: "world \<Rightarrow> CogLayerName \<Rightarrow> nat \<Rightarrow> int list \<Rightarrow> legend option \<Rightarrow> selection \<Rightarrow> run" where
  "render w layerName tileSize px cache sel =
     (let tiff = selTiff sel; imageCount = selImageCount sel; imgBbox = selImgBbox sel;
          smallest = int imageCount - 1;
          limited =
            (if selPixels sel > HARD_LIMIT_SOURCE_PIXELS then
               (if layerName = slope then Inl (transparent (selCalls sel) w tileSize px cache)
                else
                  (case getImage tiff smallest of
                     Inl e \<Rightarrow> Inl (failed (selCalls sel @ [GetImage smallest]) e px cache)
                   | Inr chosenImage \<Rightarrow> Inr (smallest, selCalls sel @ [GetImage smallest])))
             else Inr (selIndex sel, selCalls sel))
      in case limited of
           Inl r \<Rightarrow> r
         | Inr (chosenIndex, cs) \<Rightarrow>
             (case readWithFallback tiff imageCount chosenIndex imgBbox tileSize of
                (rs, Inl err2) \<Rightarrow> failed (cs @ rs) err2 px cache
              | (rs, Inr rasters) \<Rightarrow> colorize w layerName tileSize px cache (cs @ rs) rasters))"

text \<open>
  \<open>renderCogTile\<close>: the body that \<open>throttle\<close> runs once the job is admitted. An error
  thrown anywhere in the body reaches the outer \<open>catch\<close>, which passes it to \<open>done\<close>.
\<close>

record coords =
  coords_z :: real
  coords_x :: real
  coords_y :: real

definition renderCogTile ::
  "world \<Rightarrow> CogLayerName \<Rightarrow> coords \<Rightarrow> nat \<Rightarrow> int list \<Rightarrow> legend option \<Rightarrow> run" where
  "renderCogTile w layerName c tileSize px cache =
     (let tileBounds = tileToBBox (coords_x c) (coords_y c) (coords_z c)
      in case prepare w tileBounds tileSize px cache of
           Inl r \<Rightarrow> r
         | Inr sel \<Rightarrow> render w layerName tileSize px cache sel)"

text \<open>\<open>createTile\<close> hands \<open>renderCogTile\<close> a new canvas, which is transparent.\<close>

definition createTile :: "world \<Rightarrow> CogLayerName \<Rightarrow> coords \<Rightarrow> nat \<Rightarrow> legend option \<Rightarrow> run" where
  "createTile w layerName c tileSize cache =
     renderCogTile w layerName c tileSize (replicate (4 * tileSize * tileSize) 0) cache"


subsection \<open>The throttle\<close>

text \<open>
  \<open>throttle\<close> keeps the counter \<open>activeRequests\<close> and the queue \<open>pendingQueue\<close> of
  resolvers. A call runs in three pieces, each of them without interruption:
  \<^item> \<open>Call j\<close>: the test of the counter; when it is at \<open>MAX_CONCURRENT\<close> the job pushes
    its resolver and waits, otherwise it increments the counter and starts its body;
  \<^item> \<open>Resume j\<close>: the continuation of a waiting job whose resolver has been called: it
    increments the counter, with no second test, and starts its body;
  \<^item> \<open>Settle j how\<close>: the body has returned or thrown; the \<open>finally\<close> block decrements
    the counter, shifts the queue and calls the resolver it finds.
  \<open>woken\<close> holds the jobs whose resolver has been called and whose continuation has not
  run yet; \<open>released\<close> lists the jobs whose \<open>finally\<close> block has run.
\<close>

datatype settlement = Returns | Throws

datatype gateEvent = Call nat | Resume nat | Settle nat settlement

record gate =
  activeRequests :: int
  pendingQueue :: "nat list"
  woken :: "nat list"
  running :: "nat list"
  released :: "nat list"

definition initialGate :: gate where
  "initialGate = \<lparr>activeRequests = 0, pendingQueue = [], woken = [], running = [], released = []\<rparr>"

definition known :: "gate \<Rightarrow> nat \<Rightarrow> bool" where
  "known g j = (j \<in> set (pendingQueue g @ woken g @ running g @ released g))"

fun step :: "gateEvent \<Rightarrow> gate \<Rightarrow> gate option" where
  "step (Call j) g =
     (if known g j then None
      else if activeRequests g \<ge> int MAX_CONCURRENT
           then Some (g\<lparr>pendingQueue := pendingQueue g @ [j]\<rparr>)
           else Some (g\<lparr>activeRequests := activeRequests g + 1, running := j # running g\<rparr>))"
| "step (Resume j) g =
     (if j \<in> set (woken g)
      then Some (g\<lparr>woken := removeAll j (woken g), activeRequests := activeRequests g + 1,
                   running := j # running g\<rparr>)
      else None)"
| "step (Settle j how) g =
     (if j \<in> set (running g)
      then (let g' = g\<lparr>running := removeAll j (running g),
                         activeRequests := activeRequests g - 1,
                         released := released g @ [j]\<rparr>
            in case pendingQueue g' of
                 [] \<Rightarrow> Some g'
               | next # rest \<Rightarrow> Some (g'\<lparr>pendingQueue := rest, woken := woken g' @ [next]\<rparr>))
      else None)"

text \<open>A schedule is a list of pieces; \<open>None\<close> when a piece cannot run at its place.\<close>

fun runGate :: "gateEvent list \<Rightarrow> gate \<Rightarrow> gate option" where
  "runGate [] g = Some g"
| "runGate (e # es) g = (case step e g of None \<Rightarrow> None | Some g' \<Rightarrow> runGate es g')"


subsection \<open>Legend keys and colours as the specification reads them\<close>

text \<open>
  The specification speaks of the string key of the rounded sample and of the colour of a
  legend entry. \<open>isDecimalOf s n\<close>: \<open>s\<close> is the decimal numeral of \<open>n\<close>, digits only
  and no leading zero. \<open>hexColour\<close>: the colour a string \<open>#rrggbb\<close> (or \<open>rrggbb\<close>)
  denotes, two hexadecimal digits for each channel.
\<close>

definition digitValue :: "char \<Rightarrow> nat option" where
  "digitValue = map_of
     [(CHR ''0'', 0), (CHR ''1'', 1), (CHR ''2'', 2), (CHR ''3'', 3), (CHR ''4'', 4),
      (CHR ''5'', 5), (CHR ''6'', 6), (CHR ''7'', 7), (CHR ''8'', 8), (CHR ''9'', 9)]"

definition decimalValue :: "string \<Rightarrow> nat option" where
  "decimalValue s =
     foldl (\<lambda>acc c. case (acc, digitValue c) of (Some a, Some d) \<Rightarrow> Some (10 * a + d) | _ \<Rightarrow> None)
       (Some 0) s"

definition isDecimalOf :: "string \<Rightarrow> nat \<Rightarrow> bool" where
  "isDecimalOf s n = (s \<noteq> [] \<and> decimalValue s = Some n \<and> (s = ''0'' \<or> hd s \<noteq> CHR ''0''))"




subsection \<open>Reading the calls of a job\<close>

fun isRead :: "io \<Rightarrow> bool" where
  "isRead (ReadRasters i box w h) = True"
| "isRead _ = False"

subsection \<open>Example files\<close>

text \<open>
  A file with a single image of 10000 by 6000 pixels over \<open>[-80, 22.5, -70, 30]\<close>, which
  lies inside tile 3/2/3: the estimate for that tile is 60,000,000 source pixels.
\<close>

definition coarseImage :: tiffImage where
  "coarseImage =
     \<lparr>getWidth = 10000, getHeight = 6000, getBoundingBox = Some (-80, 45 / 2, -70, 30),
      ModelTiepoint = None, ModelPixelScale = None\<rparr>"

definition coarseTiff :: geotiff where
  "coarseTiff =
     \<lparr>getImageCount = Inr 1,
      getImage = (\<lambda>i. if i = 0 then Inr coarseImage else Inl ''no such image''),
      readRasters = (\<lambda>n i box w h. Inr [[SNum 2]])\<rparr>"

definition coarseWorld :: world where
  "coarseWorld = \<lparr>fromUrl = Inr coarseTiff, getContext = True, legendResponse = None\<rparr>"

text \<open>
  A file with three levels over the same box, 4000 by 3000, 2000 by 1500 and 1000 by 750
  pixels; the answers to \<open>readRasters\<close> are a parameter.
\<close>

definition pyramidImage :: "nat \<Rightarrow> nat \<Rightarrow> tiffImage" where
  "pyramidImage w h =
     \<lparr>getWidth = w, getHeight = h, getBoundingBox = Some (-80, 45 / 2, -70, 30),
      ModelTiepoint = None, ModelPixelScale = None\<rparr>"

definition pyramidTiff ::
  "(nat \<Rightarrow> int \<Rightarrow> bbox \<Rightarrow> nat \<Rightarrow> nat \<Rightarrow> exn + sample list list) \<Rightarrow> geotiff" where
  "pyramidTiff rd =
     \<lparr>getImageCount = Inr 3,
      getImage = (\<lambda>i. if i = 0 then Inr (pyramidImage 4000 3000)
                      else if i = 1 then Inr (pyramidImage 2000 1500)
                      else if i = 2 then Inr (pyramidImage 1000 750)
                      else Inl ''no such image''),
      readRasters = rd\<rparr>"

text \<open>Every read answers; and: the first read of a job is rejected, the next one answers.\<close>

definition steadyWorld :: world where
  "steadyWorld =
     \<lparr>fromUrl = Inr (pyramidTiff (\<lambda>n i box w h. Inr [[SNum 2]])),
      getContext = True, legendResponse = None\<rparr>"

definition flakyWorld :: world where
  "flakyWorld =
     \<lparr>fromUrl = Inr (pyramidTiff (\<lambda>n i box w h. if n = 0 then Inl ''read failed'' else Inr [[SNum 2]])),
      getContext = True, legendResponse = None\<rparr>"

text \<open>No file can be opened.\<close>

definition offlineWorld :: world where
  "offlineWorld = \<lparr>fromUrl = Inl ''network error'', getContext = True, legendResponse = None\<rparr>"


text \<open>What the jobs for tile 3/2/3 know about these files once the overview is chosen.\<close>

definition coarseSelection :: selection where
  "coarseSelection =
     \<lparr>selTiff = coarseTiff, selImageCount = 1, selImgBbox = (-80, 45 / 2, -70, 30),
      selIndex = 0, selImage = coarseImage, selPixels = 60000000,
      selCalls = [FromUrl, GetImageCount, GetImage 0, GetImage 0, GetImage 0]\<rparr>"

definition pyramidSelection ::
  "(nat \<Rightarrow> int \<Rightarrow> bbox \<Rightarrow> nat \<Rightarrow> nat \<Rightarrow> exn + sample list list) \<Rightarrow> selection" where
  "pyramidSelection rd =
     \<lparr>selTiff = pyramidTiff rd, selImageCount = 3, selImgBbox = (-80, 45 / 2, -70, 30),
      selIndex = 2, selImage = pyramidImage 1000 750, selPixels = 750000,
      selCalls = [FromUrl, GetImageCount, GetImage 0, GetImage 2, GetImage 2]\<rparr>"

definition tile_3_2_3 :: coords where
  "tile_3_2_3 = \<lparr>coords_z = 3, coords_x = 2, coords_y = 3\<rparr>"


section \<open>Properties\<close>

subsection \<open>Tile geometry\<close>

lemma tileToBBox_lon: "fst (tileToBBox x y z) < fst (snd (snd (tileToBBox x y z)))"
proof -
  have n: "0 < (2::real) powr z" by simp
  have "(x / (2 powr z)) * 360 < ((x + 1) / (2 powr z)) * 360"
    using n by (simp add: divide_strict_right_mono)
  then show ?thesis by (simp add: tileToBBox_def Let_def)
qed

lemma tileToBBox_lat: "fst (snd (tileToBBox x y z)) < snd (snd (snd (tileToBBox x y z)))"
proof -
  have n: "0 < (2::real) powr z" by simp
  have "2 * y / (2 powr z) < 2 * (y + 1) / (2 powr z)"
    using n by (simp add: divide_strict_right_mono)
  then have "pi * (1 - 2 * (y + 1) / (2 powr z)) < pi * (1 - 2 * y / (2 powr z))"
    by simp
  then have "arctan (sinh (pi * (1 - 2 * (y + 1) / (2 powr z))))
      < arctan (sinh (pi * (1 - 2 * y / (2 powr z))))"
    by (simp add: arctan_less_iff)
  then have "arctan (sinh (pi * (1 - 2 * (y + 1) / (2 powr z)))) * 180 / pi
      < arctan (sinh (pi * (1 - 2 * y / (2 powr z)))) * 180 / pi"
    by (simp add: divide_strict_right_mono)
  then show ?thesis by (simp add: tileToBBox_def Let_def)
qed

text \<open>In exact arithmetic the box of every tile is strictly well-formed.\<close>

lemma tileToBBox_exact_wellFormed: "strictlyWellFormed (tileToBBox x y z)"
proof -
  obtain a b c d where t: "tileToBBox x y z = (a, b, c, d)"
    by (cases "tileToBBox x y z") auto
  from tileToBBox_lon [of x y z] tileToBBox_lat [of x y z] t
  show ?thesis by simp
qed

text \<open>
  C9 as stated fails: the test compares raw coordinates and has no check of the invariant.
  The box \<open>[-70, 30, -100, 40]\<close> has \<open>minLon > maxLon\<close> and is reported to intersect
  \<open>COG_BOUNDS\<close>.
\<close>

theorem bboxesIntersect_illFormed_counterexample:
  "\<not> wellFormed (-70, 30, -100, 40) \<and> bboxesIntersect (-70, 30, -100, 40) COG_BOUNDS"
  by (simp add: COG_BOUNDS_def)

text \<open>
  C9, amended. The intersection test does not check the invariant. For two boxes that
  satisfy it, the test holds exactly when the two regions share a point (touching edges
  count); a box that violates the invariant goes through the same four comparisons.
\<close>

theorem bboxesIntersect_wellFormed:
  assumes "wellFormed a" and "wellFormed b"
  shows "bboxesIntersect a b \<longleftrightarrow> (\<exists>p. inBox a p \<and> inBox b p)"
proof -
  obtain a1 a2 a3 a4 where a: "a = (a1, a2, a3, a4)" by (cases a) auto
  obtain b1 b2 b3 b4 where b: "b = (b1, b2, b3, b4)" by (cases b) auto
  show ?thesis
  proof
    assume i: "bboxesIntersect a b"
    have "inBox a (max a1 b1, max a2 b2) \<and> inBox b (max a1 b1, max a2 b2)"
      using i assms by (auto simp: a b)
    then show "\<exists>p. inBox a p \<and> inBox b p" by blast
  next
    assume "\<exists>p. inBox a p \<and> inBox b p"
    then obtain lon lat where "inBox a (lon, lat)" and "inBox b (lon, lat)" by auto
    then show "bboxesIntersect a b" by (auto simp: a b)
  qed
qed

theorem bboxesIntersect_wellFormed_witness:
  "wellFormed (-90, 0, -45, 40) \<and> wellFormed COG_BOUNDS
     \<and> (bboxesIntersect (-90, 0, -45, 40) COG_BOUNDS
          \<longleftrightarrow> (\<exists>p. inBox (-90, 0, -45, 40) p \<and> inBox COG_BOUNDS p))"
proof -
  have wa: "wellFormed (-90, 0, -45, 40)" by simp
  have wb: "wellFormed COG_BOUNDS" by (simp add: COG_BOUNDS_def)
  show ?thesis using wa wb bboxesIntersect_wellFormed [OF wa wb] by simp
qed

subsection \<open>Tile geometry in double precision\<close>

lemma roundEven_int: "roundEven (of_int k) = k"
  by (simp add: roundEven_def)

lemma roundEven_err: "\<bar>of_int (roundEven m) - m\<bar> \<le> 1 / 2"
proof -
  have "of_int \<lfloor>m\<rfloor> \<le> m" "m < of_int \<lfloor>m\<rfloor> + 1" by linarith+
  then show ?thesis by (auto simp: roundEven_def Let_def)
qed

lemma binade:
  assumes "0 < a"
  shows "2 powr of_int \<lfloor>log 2 a\<rfloor> \<le> a" and "a < 2 powr (of_int \<lfloor>log 2 a\<rfloor> + 1)"
proof -
  have "\<lfloor>log 2 a\<rfloor> = \<lfloor>log 2 a\<rfloor>" ..
  with floor_log_eq_powr_iff [of a 2 "\<lfloor>log 2 a\<rfloor>"] assms
  show "2 powr of_int \<lfloor>log 2 a\<rfloor> \<le> a" and "a < 2 powr (of_int \<lfloor>log 2 a\<rfloor> + 1)"
    by simp_all
qed

lemma fl_abs: 
  assumes "r \<noteq> 0"
  shows "fl r = sgn r * (of_int (roundEven (\<bar>r\<bar> / 2 powr (of_int \<lfloor>log 2 \<bar>r\<bar>\<rfloor> - 52)))
            * 2 powr (of_int \<lfloor>log 2 \<bar>r\<bar>\<rfloor> - 52))"
  using assms by (simp add: fl_def Let_def)

lemma fl_exact:
  assumes "\<bar>m\<bar> < 2 ^ 53"
  shows "fl (of_int m * 2 powr of_int e) = of_int m * 2 powr of_int e"
proof (cases "m = 0")
  case True
  then show ?thesis by (simp add: fl_def)
next
  case False
  define r where "r = of_int m * 2 powr (of_int e :: real)"
  define a where "a = \<bar>r\<bar>"
  define E where "E = \<lfloor>log 2 a\<rfloor>"
  have a: "a = of_int \<bar>m\<bar> * 2 powr of_int e"
    by (simp add: a_def r_def abs_mult)
  have apos: "0 < a" using False by (simp add: a)
  have r0: "r \<noteq> 0" using apos by (auto simp: a_def)
  have lo: "2 powr of_int E \<le> a" and hi: "a < 2 powr (of_int E + 1)"
    using binade [OF apos] by (simp_all add: E_def)
  have "of_int \<bar>m\<bar> < (2::real) ^ 53" using assms by (metis of_int_less_numeral_power_cancel_iff)
  then have "a < 2 ^ 53 * 2 powr of_int e" by (simp add: a)
  also have "\<dots> = 2 powr (of_int e + 53)" by (simp add: powr_add powr_numeral)
  finally have "a < 2 powr (of_int e + 53)" .
  with lo have "2 powr of_int E < (2::real) powr (of_int e + 53)" by (rule le_less_trans)
  then have "of_int E < (of_int e + 53 :: real)" by simp
  then have k: "0 \<le> e + 52 - E" by linarith
  define k where "k = nat (e + 52 - E)"
  have "(of_int e - (of_int E - 52) :: real) = of_int (int k)"
    using k by (simp add: k_def)
  then have "(2::real) powr (of_int e - (of_int E - 52)) = 2 powr of_int (int k)"
    by (simp only:)
  also have "\<dots> = 2 ^ k" by (simp add: powr_realpow)
  finally have p: "(2::real) powr (of_int e - (of_int E - 52)) = 2 ^ k" .
  have "a / 2 powr (of_int E - 52) = of_int \<bar>m\<bar> * 2 powr (of_int e - (of_int E - 52))"
    by (simp add: a powr_diff)
  also have "\<dots> = of_int (\<bar>m\<bar> * 2 ^ k)" by (simp add: p)
  finally have q: "a / 2 powr (of_int E - 52) = of_int (\<bar>m\<bar> * 2 ^ k)" .
  have "fl r = sgn r * (of_int (roundEven (a / 2 powr (of_int E - 52))) * 2 powr (of_int E - 52))"
    using fl_abs [OF r0] by (simp add: a_def E_def)
  also have "\<dots> = sgn r * (a / 2 powr (of_int E - 52) * 2 powr (of_int E - 52))"
    by (simp only: q roundEven_int)
  also have "\<dots> = sgn r * a" by simp
  also have "\<dots> = r" by (simp add: a_def sgn_if)
  finally show ?thesis by (simp add: r_def)
qed

lemma fl_err: "\<bar>fl r - r\<bar> \<le> \<bar>r\<bar> / 2 ^ 53"
proof (cases "r = 0")
  case True
  then show ?thesis by (simp add: fl_def)
next
  case False
  define a where "a = \<bar>r\<bar>"
  define E where "E = \<lfloor>log 2 a\<rfloor>"
  define u where "u = (2::real) powr (of_int E - 52)"
  define q where "q = a / u"
  have apos: "0 < a" using False by (simp add: a_def)
  have upos: "0 < u" by (simp add: u_def)
  have lo: "2 powr of_int E \<le> a"
    using binade(1) [OF apos] by (simp add: E_def)
  have f: "fl r = sgn r * (of_int (roundEven q) * u)"
    using fl_abs [OF False] by (simp add: a_def E_def u_def q_def)
  have r: "r = sgn r * (q * u)" using upos by (simp add: q_def a_def sgn_if)
  have "fl r - r = sgn r * ((of_int (roundEven q) - q) * u)"
    by (subst f, subst (2) r) (simp add: algebra_simps)
  then have "\<bar>fl r - r\<bar> = \<bar>of_int (roundEven q) - q\<bar> * u"
    using False upos by (simp add: abs_mult abs_sgn_eq)
  also have "\<dots> \<le> 1 / 2 * u"
    using roundEven_err [of q] upos by (intro mult_right_mono) simp_all
  also have "\<dots> = 2 powr of_int E / 2 ^ 53"
    by (simp add: u_def powr_diff powr_numeral)
  also have "\<dots> \<le> a / 2 ^ 53" using lo by (simp add: divide_right_mono)
  finally show ?thesis by (simp add: a_def)
qed

lemma fl_int: "\<bar>m\<bar> < 2 ^ 53 \<Longrightarrow> fl (of_int m) = of_int m"
  using fl_exact [of m 0] by simp

lemma fl_dyadic:
  assumes "\<bar>m\<bar> < 2 ^ 53"
  shows "fl (of_int m / 2 ^ k) = of_int m / 2 ^ k"
proof -
  have "(2::real) powr of_int (- int k) = 1 / 2 ^ k"
    by (simp add: powr_minus powr_realpow inverse_eq_divide)
  with fl_exact [OF assms, of "- int k"] show ?thesis by simp
qed

lemma fl_pow2: "fl (2 ^ k) = 2 ^ k"
proof -
  have "(2::real) powr of_int (int k) = 2 ^ k" by (simp add: powr_realpow)
  with fl_exact [of 1 "int k"] show ?thesis by simp
qed

lemma fl_0: "fl 0 = 0"
  by (simp add: fl_def)

text \<open>Zoom 55: the last subtraction of \<open>lonMax\<close> rounds to \<open>-180\<close>.\<close>

lemma fl_lonMax_55: "fl (360 / 2 ^ 55 - 180) = - 180"
proof -
  define r :: real where "r = 360 / 2 ^ 55 - 180"
  have r0: "r \<noteq> 0" and a: "\<bar>r\<bar> = 180 - 360 / 2 ^ 55" by (simp_all add: r_def)
  have "(2::real) powr of_int 7 \<le> \<bar>r\<bar> \<and> \<bar>r\<bar> < 2 powr (of_int 7 + 1)"
    by (simp add: a)
  then have E: "\<lfloor>log 2 \<bar>r\<bar>\<rfloor> = 7"
    using floor_log_eq_powr_iff [of "\<bar>r\<bar>" 2 7] r0 by simp
  have u: "(2::real) powr (of_int 7 - 52) = 1 / 2 ^ 45"
  proof -
    have "(2::real) powr (of_int 7 - 52) = 2 powr of_int (- int 45)" by simp
    also have "\<dots> = 1 / 2 ^ 45" by (simp add: powr_minus powr_realpow inverse_eq_divide)
    finally show ?thesis .
  qed
  have q: "\<bar>r\<bar> / (1 / 2 ^ 45) = 6333186975989760 - 45 / 128" by (simp add: a)
  have fq: "\<lfloor>6333186975989760 - 45 / 128 :: real\<rfloor> = 6333186975989759" by linarith
  have re: "roundEven (6333186975989760 - 45 / 128) = 6333186975989760"
    unfolding roundEven_def Let_def fq by simp
  have "fl r = sgn r * (of_int (roundEven (\<bar>r\<bar> / (1 / 2 ^ 45))) * (1 / 2 ^ 45))"
    using fl_abs [OF r0] by (simp only: E u)
  also have "\<dots> = - 180" by (simp only: q re) (simp add: r_def sgn_if)
  finally show ?thesis by (simp add: r_def)
qed

lemma lon_55:
  "fst (tileToBBox_double Math_sinh Math_atan 0 0 55) = - 180"
  "fst (snd (snd (tileToBBox_double Math_sinh Math_atan 0 0 55))) = - 180"
proof -
  have n: "fl (2 powr 55) = 2 ^ 55"
  proof -
    have "(2::real) powr 55 = 2 ^ 55" by simp
    with fl_pow2 [of 55] show ?thesis by simp
  qed
  have z1: "(0::real) / 2 ^ 55 = 0" and z2: "(0::real) * 360 = 0" and z3: "(0::real) - 180 = - 180"
    and z4: "(0::real) + 1 = 1"
    by simp_all
  have m180: "fl (- 180) = - 180" using fl_int [of "- 180"] by simp
  have one: "fl 1 = 1" using fl_int [of 1] by simp
  have a: "fl (1 / 2 ^ 55) = 1 / 2 ^ 55" using fl_dyadic [of 1 55] by simp
  have b: "fl (1 / 2 ^ 55 * 360) = 360 / 2 ^ 55" using fl_dyadic [of 360 55] by simp
  show "fst (tileToBBox_double Math_sinh Math_atan 0 0 55) = - 180"
    unfolding tileToBBox_double_def Let_def fst_conv
    by (simp only: n z1 fl_0 z2 z3 m180)
  show "fst (snd (snd (tileToBBox_double Math_sinh Math_atan 0 0 55))) = - 180"
    unfolding tileToBBox_double_def Let_def fst_conv snd_conv
    by (simp only: n z4 one a b fl_lonMax_55)
qed

text \<open>
  C10 as stated fails. At zoom 55, tile 0/0, the last subtraction of \<open>lonMax\<close> rounds
  \<open>360 / 2^55 - 180\<close> to \<open>-180\<close>, which is \<open>lonMin\<close>: the box is not strictly
  well-formed.
\<close>

theorem tileToBBox_double_counterexample:
  "(0::real) \<le> 55 \<and> (0::real) \<le> 0 \<and> (0::real) < 2 powr 55
   \<and> \<not> strictlyWellFormed (tileToBBox_double (\<lambda>t. fl (sinh t)) (\<lambda>s. fl (arctan s)) 0 0 55)"
proof -
  have "\<not> strictlyWellFormed (tileToBBox_double (\<lambda>t. fl (sinh t)) (\<lambda>s. fl (arctan s)) 0 0 55)"
    using lon_55 [of "\<lambda>t. fl (sinh t)" "\<lambda>s. fl (arctan s)"]
    by (cases "tileToBBox_double (\<lambda>t. fl (sinh t)) (\<lambda>s. fl (arctan s)) 0 0 55") simp
  then show ?thesis by simp
qed

lemma Math_PI_bounds: "3 < Math_PI" "Math_PI < 16 / 5"
  by (simp_all add: Math_PI_def)

lemma cosh_le_81:
  assumes "\<bar>x\<bar> \<le> 4"
  shows "cosh (x::real) \<le> 81"
proof -
  have "cosh x = cosh \<bar>x\<bar>" by simp
  also have "\<dots> \<le> cosh 4" using assms by (subst cosh_real_nonneg_le_iff) simp_all
  also have "\<dots> = (exp 4 + exp (- 4)) / 2" by (simp add: cosh_field_def)
  also have "\<dots> \<le> exp (4::real)"
  proof -
    have "exp (- 4 :: real) \<le> exp 4" by simp
    then show ?thesis by simp
  qed
  also have "\<dots> = exp 1 ^ 4" using exp_of_nat_mult [of 4 "1::real"] by simp
  also have "\<dots> \<le> 3 ^ 4" using exp_le by (intro power_mono) simp_all
  finally show ?thesis by simp
qed

lemma sinh_lipschitz:
  assumes "\<bar>p\<bar> \<le> 4" and "\<bar>q\<bar> \<le> 4"
  shows "\<bar>sinh p - sinh q\<bar> \<le> 81 * \<bar>p - q :: real\<bar>"
proof -
  have main: "\<bar>sinh b - sinh a\<bar> \<le> 81 * \<bar>b - a\<bar>" if "a < b" "\<bar>a\<bar> \<le> 4" "\<bar>b\<bar> \<le> 4" for a b :: real
  proof -
    have "\<exists>z. a < z \<and> z < b \<and> sinh b - sinh a = (b - a) * cosh z"
      using that(1) by (intro MVT2) (auto intro!: derivative_eq_intros)
    then obtain z where z: "a < z" "z < b" and e: "sinh b - sinh a = (b - a) * cosh z" by blast
    from z that have "\<bar>z\<bar> \<le> 4" by linarith
    then have c: "cosh z \<le> 81" by (rule cosh_le_81)
    have "\<bar>sinh b - sinh a\<bar> = \<bar>b - a\<bar> * cosh z" by (simp add: e abs_mult)
    also have "\<dots> \<le> \<bar>b - a\<bar> * 81" using c by (intro mult_left_mono) simp_all
    finally show ?thesis by simp
  qed
  consider "p < q" | "q < p" | "p = q" by linarith
  then show ?thesis
  proof cases
    case 1
    from main [OF 1 assms] show ?thesis by (simp add: abs_minus_commute)
  next
    case 2
    from main [OF 2 assms(2,1)] show ?thesis by simp
  next
    case 3
    then show ?thesis by simp
  qed
qed

lemma arctan_lipschitz: "\<bar>arctan p - arctan q\<bar> \<le> \<bar>p - q\<bar>"
proof -
  have main: "\<bar>arctan b - arctan a\<bar> \<le> \<bar>b - a\<bar>" if "a < b" for a b :: real
  proof -
    have "\<exists>z. a < z \<and> z < b \<and> arctan b - arctan a = (b - a) * inverse (1 + z\<^sup>2)"
      using that by (intro MVT2) (auto intro!: DERIV_arctan)
    then obtain z where e: "arctan b - arctan a = (b - a) * inverse (1 + z\<^sup>2)" by blast
    have i: "0 \<le> inverse (1 + z\<^sup>2)" "inverse (1 + z\<^sup>2) \<le> 1"
      by (simp_all add: inverse_le_1_iff add_nonneg_pos)
    have "\<bar>arctan b - arctan a\<bar> = \<bar>b - a\<bar> * inverse (1 + z\<^sup>2)"
      using i by (simp add: e abs_mult)
    also have "\<dots> \<le> \<bar>b - a\<bar> * 1" using i by (intro mult_left_mono) simp_all
    finally show ?thesis by simp
  qed
  consider "p < q" | "q < p" | "p = q" by linarith
  then show ?thesis
  proof cases
    case 1
    from main [OF 1] show ?thesis by (simp add: abs_minus_commute)
  next
    case 2
    from main [OF 2] show ?thesis by simp
  next
    case 3
    then show ?thesis by simp
  qed
qed

text \<open>
  The exact latitude in radians as a function of \<open>a = 1 - 2 y / n\<close>: its slope is at
  least \<open>1 / 27\<close> on \<open>[-1, 1]\<close>.
\<close>

lemma mercator_deriv:
  "DERIV (\<lambda>a. arctan (sinh (Math_PI * a))) a :> Math_PI / cosh (Math_PI * a)"
proof -
  have c: "1 + (sinh (Math_PI * a))\<^sup>2 = (cosh (Math_PI * a))\<^sup>2"
    by (simp add: cosh_square_eq)
  have "DERIV (\<lambda>a. arctan (sinh (Math_PI * a))) a
      :> inverse (1 + (sinh (Math_PI * a))\<^sup>2) * (cosh (Math_PI * a) * Math_PI)"
    by (auto intro!: derivative_eq_intros)
  also have "inverse (1 + (sinh (Math_PI * a))\<^sup>2) * (cosh (Math_PI * a) * Math_PI)
      = Math_PI / cosh (Math_PI * a)"
    unfolding c by (simp add: power2_eq_square field_simps)
  finally show ?thesis .
qed

lemma mercator_gap:
  assumes "- 1 \<le> a1" and "a1 < a0" and "a0 \<le> 1"
  shows "(a0 - a1) / 27 \<le> arctan (sinh (Math_PI * a0)) - arctan (sinh (Math_PI * a1))"
proof -
  have "\<exists>z. a1 < z \<and> z < a0 \<and>
      arctan (sinh (Math_PI * a0)) - arctan (sinh (Math_PI * a1))
        = (a0 - a1) * (Math_PI / cosh (Math_PI * z))"
    using assms(2) by (intro MVT2) (auto intro!: mercator_deriv)
  then obtain z where z: "a1 < z" "z < a0" and
    e: "arctan (sinh (Math_PI * a0)) - arctan (sinh (Math_PI * a1))
        = (a0 - a1) * (Math_PI / cosh (Math_PI * z))" by blast
  from z assms have "\<bar>z\<bar> \<le> 1" by linarith
  then have "\<bar>Math_PI * z\<bar> \<le> Math_PI * 1"
    using Math_PI_bounds by (simp add: abs_mult)
  with Math_PI_bounds have "\<bar>Math_PI * z\<bar> \<le> 4" by linarith
  then have c: "cosh (Math_PI * z) \<le> 81" by (rule cosh_le_81)
  have "1 / 27 \<le> Math_PI / cosh (Math_PI * z)"
  proof -
    have "1 / 27 = 3 / (81::real)" by simp
    also have "\<dots> \<le> Math_PI / 81" using Math_PI_bounds by simp
    also have "\<dots> \<le> Math_PI / cosh (Math_PI * z)"
      using c Math_PI_bounds by (intro divide_left_mono) simp_all
    finally show ?thesis .
  qed
  then have "(a0 - a1) * (1 / 27) \<le> (a0 - a1) * (Math_PI / cosh (Math_PI * z))"
    using assms(2) by (intro mult_left_mono) simp_all
  with e show ?thesis by simp
qed

lemma pow2_le_4096: "k \<le> 12 \<Longrightarrow> (2::nat) ^ k \<le> 4096"
  using power_increasing [of k 12 "2::nat"] by simp

lemma pow2_int_le_4096: "k \<le> 12 \<Longrightarrow> (2::int) ^ k \<le> 4096"
  using power_increasing [of k 12 "2::int"] by simp

lemma fl_pow: "fl (2 powr real k) = 2 ^ k"
proof -
  have "(2::real) powr real k = 2 ^ k" by (simp add: powr_realpow)
  with fl_pow2 [of k] show ?thesis by simp
qed

lemma fl_nat: "n \<le> 10000 \<Longrightarrow> fl (real n) = real n"
  using fl_int [of "int n"] by simp

lemma fl_succ: "n \<le> 4096 \<Longrightarrow> fl (real n + 1) = real (n + 1)"
  using fl_nat [of "n + 1"] by (simp add: add.commute)

lemma fl_nat_dyadic:
  assumes "\<bar>m\<bar> \<le> 10000000"
  shows "fl (of_int m / 2 ^ k) = of_int m / 2 ^ k"
  using assms by (intro fl_dyadic) simp

lemma lon_exact:
  assumes "k \<le> 12" and "i \<le> 2 ^ k"
  shows "fl (fl (fl (real i / fl (2 powr real k)) * 360) - 180) = real i * 360 / 2 ^ k - 180"
proof -
  from assms pow2_le_4096 [OF assms(1)] have i: "i \<le> 4096" and p: "(2::nat) ^ k \<le> 4096"
    by simp_all
  have a: "fl (real i / 2 ^ k) = real i / 2 ^ k"
    using i fl_nat_dyadic [of "int i" k] by simp
  have b: "fl (real i / 2 ^ k * 360) = real i * 360 / 2 ^ k"
    using i fl_nat_dyadic [of "int i * 360" k] by simp
  have "real i * 360 / 2 ^ k - 180 = of_int (int i * 360 - 180 * 2 ^ k) / 2 ^ k"
    by (simp add: field_simps)
  moreover have "\<bar>int i * 360 - 180 * 2 ^ k\<bar> \<le> 10000000"
  proof -
    have "(2::int) ^ k \<le> 4096" "(0::int) \<le> 2 ^ k"
      using assms(1) by (simp_all add: pow2_int_le_4096)
    with i show ?thesis by linarith
  qed
  ultimately have c: "fl (real i * 360 / 2 ^ k - 180) = real i * 360 / 2 ^ k - 180"
    using fl_nat_dyadic [of "int i * 360 - 180 * 2 ^ k" k] by simp
  show ?thesis by (simp only: fl_pow a b c)
qed

lemma arg_exact:
  assumes "k \<le> 12" and "j \<le> 2 ^ k"
  shows "fl (1 - fl (fl (2 * real j) / fl (2 powr real k))) = 1 - 2 * real j / 2 ^ k"
proof -
  from assms pow2_le_4096 [OF assms(1)] have j: "j \<le> 4096" and p: "(2::nat) ^ k \<le> 4096"
    by simp_all
  have a: "fl (2 * real j) = 2 * real j"
    using j fl_nat [of "2 * j"] by simp
  have b: "fl (2 * real j / 2 ^ k) = 2 * real j / 2 ^ k"
    using j fl_nat_dyadic [of "2 * int j" k] by simp
  have "1 - 2 * real j / 2 ^ k = of_int (2 ^ k - 2 * int j) / 2 ^ k"
    by (simp add: field_simps)
  moreover have "\<bar>2 ^ k - 2 * int j\<bar> \<le> 10000000"
  proof -
    have "(2::int) ^ k \<le> 4096" "(0::int) \<le> 2 ^ k"
      using assms(1) by (simp_all add: pow2_int_le_4096)
    with j show ?thesis by linarith
  qed
  ultimately have c: "fl (1 - 2 * real j / 2 ^ k) = 1 - 2 * real j / 2 ^ k"
    using fl_nat_dyadic [of "2 ^ k - 2 * int j" k] by simp
  show ?thesis by (simp only: fl_pow a b c)
qed

lemma latitude_error:
  assumes "accurate Math_sinh Math_atan" and "\<bar>a\<bar> \<le> 1"
  shows "\<bar>fl (fl (Math_atan (Math_sinh (fl (Math_PI * a))) * 180) / Math_PI)
            - 180 * arctan (sinh (Math_PI * a)) / Math_PI\<bar> \<le> 1 / 1000000"
proof -
  note P = Math_PI_bounds
  define t where "t = fl (Math_PI * a)"
  define s where "s = Math_sinh t"
  define u where "u = Math_atan s"
  define v where "v = fl (u * 180)"
  define w where "w = fl (v / Math_PI)"
  define h where "h = arctan (sinh (Math_PI * a))"
  have pa: "\<bar>Math_PI * a\<bar> \<le> 16 / 5"
  proof -
    have "\<bar>Math_PI * a\<bar> = Math_PI * \<bar>a\<bar>" using P by (simp add: abs_mult)
    also have "\<dots> \<le> Math_PI * 1" using assms(2) P by (intro mult_left_mono) simp_all
    finally show ?thesis using P by simp
  qed
  have "\<bar>t - Math_PI * a\<bar> \<le> \<bar>Math_PI * a\<bar> / 2 ^ 53"
    unfolding t_def by (rule fl_err)
  also have "\<dots> \<le> (16 / 5) / 2 ^ 53" using pa by (intro divide_right_mono) simp_all
  also have "\<dots> \<le> 1 / 1000000000000000" by simp
  finally have et: "\<bar>t - Math_PI * a\<bar> \<le> 1 / 1000000000000000" .
  from et pa have t4: "\<bar>t\<bar> \<le> 4" by argo
  from pa have pa4: "\<bar>Math_PI * a\<bar> \<le> 4" by argo
  have e1: "\<bar>s - sinh t\<bar> \<le> 1 / 1000000000"
    using assms(1) t4 by (simp add: accurate_def s_def)
  have "\<bar>sinh t - sinh (Math_PI * a)\<bar> \<le> 81 * \<bar>t - Math_PI * a\<bar>"
    using t4 pa4 by (rule sinh_lipschitz)
  with et have e2: "\<bar>sinh t - sinh (Math_PI * a)\<bar> \<le> 81 / 1000000000000000" by argo
  from e1 e2 have es: "\<bar>s - sinh (Math_PI * a)\<bar> \<le> 2 / 1000000000" by argo
  have e3: "\<bar>u - arctan s\<bar> \<le> 1 / 1000000000"
    using assms(1) by (simp add: accurate_def u_def)
  have "\<bar>arctan s - h\<bar> \<le> \<bar>s - sinh (Math_PI * a)\<bar>"
    unfolding h_def by (rule arctan_lipschitz)
  with es e3 have eu: "\<bar>u - h\<bar> \<le> 3 / 1000000000" by argo
  have hb: "\<bar>h\<bar> \<le> 2"
    using arctan_bounded [of "sinh (Math_PI * a)"] pi_half_less_two unfolding h_def by argo
  from eu hb have ub: "\<bar>u\<bar> \<le> 3" by argo
  have "\<bar>v - u * 180\<bar> \<le> \<bar>u * 180\<bar> / 2 ^ 53"
    unfolding v_def by (rule fl_err)
  also have "\<dots> \<le> 540 / 2 ^ 53" using ub by (intro divide_right_mono) simp_all
  also have "\<dots> \<le> 1 / 10000000000000" by simp
  finally have ev: "\<bar>v - u * 180\<bar> \<le> 1 / 10000000000000" .
  from ev ub have vb: "\<bar>v\<bar> \<le> 541" by argo
  have vp: "\<bar>v / Math_PI\<bar> \<le> 541 / 3"
  proof -
    have "\<bar>v / Math_PI\<bar> = \<bar>v\<bar> / Math_PI" using P by simp
    also have "\<dots> \<le> 541 / 3" using vb P by (intro frac_le) simp_all
    finally show ?thesis .
  qed
  have "\<bar>w - v / Math_PI\<bar> \<le> \<bar>v / Math_PI\<bar> / 2 ^ 53"
    unfolding w_def by (rule fl_err)
  also have "\<dots> \<le> (541 / 3) / 2 ^ 53" using vp by (intro divide_right_mono) simp_all
  also have "\<dots> \<le> 1 / 10000000000000" by simp
  finally have ew: "\<bar>w - v / Math_PI\<bar> \<le> 1 / 10000000000000" .
  have d: "\<bar>v / Math_PI - 180 * h / Math_PI\<bar> \<le> 2 / 10000000"
  proof -
    from ev eu have "\<bar>v - 180 * h\<bar> \<le> 6 / 10000000" by argo
    have "\<bar>v / Math_PI - 180 * h / Math_PI\<bar> = \<bar>v - 180 * h\<bar> / Math_PI"
      using P by (simp add: diff_divide_distrib [symmetric])
    also have "\<dots> \<le> (6 / 10000000) / 3"
      using \<open>\<bar>v - 180 * h\<bar> \<le> 6 / 10000000\<close> P by (intro frac_le) simp_all
    finally show ?thesis by simp
  qed
  from ew d have "\<bar>w - 180 * h / Math_PI\<bar> \<le> 1 / 1000000" by argo
  then show ?thesis by (simp add: w_def v_def u_def s_def t_def h_def)
qed

lemma lat_strict:
  assumes acc: "accurate Math_sinh Math_atan" and k: "k \<le> 12" and j: "j < 2 ^ k"
  shows "fl (fl (Math_atan (Math_sinh (fl (Math_PI * (1 - 2 * real (j + 1) / 2 ^ k)))) * 180) / Math_PI)
       < fl (fl (Math_atan (Math_sinh (fl (Math_PI * (1 - 2 * real j / 2 ^ k)))) * 180) / Math_PI)"
proof -
  note P = Math_PI_bounds
  define a0 :: real where "a0 = 1 - 2 * real j / 2 ^ k"
  define a1 :: real where "a1 = 1 - 2 * real (j + 1) / 2 ^ k"
  define h0 where "h0 = arctan (sinh (Math_PI * a0))"
  define h1 where "h1 = arctan (sinh (Math_PI * a1))"
  have pk: "(0::real) < 2 ^ k" by simp
  have pk': "(2::real) ^ k \<le> 4096"
  proof -
    have "(2::real) ^ k \<le> 2 ^ 12" using k by (intro power_increasing) simp_all
    then show ?thesis by simp
  qed
  have jr: "real j + 1 \<le> 2 ^ k"
  proof -
    from j have "j + 1 \<le> 2 ^ k" by simp
    then have "real (j + 1) \<le> real (2 ^ k)" by (simp only: of_nat_le_iff)
    then show ?thesis by simp
  qed
  have d: "a0 - a1 = 2 / 2 ^ k" by (simp add: a0_def a1_def field_simps)
  have "2 / 4096 \<le> 2 / (2::real) ^ k" using pk pk' by (intro divide_left_mono) simp_all
  with d have gap: "1 / 2048 \<le> a0 - a1" by simp
  have q: "0 \<le> real j / 2 ^ k" "(real j + 1) / 2 ^ k \<le> 1"
    using jr pk by (simp_all add: field_simps)
  have b0: "a0 \<le> 1" using q(1) by (simp add: a0_def)
  have b1: "- 1 \<le> a1"
  proof -
    have "2 * real (j + 1) / 2 ^ k = 2 * ((real j + 1) / 2 ^ k)" by simp
    with q(2) show ?thesis unfolding a1_def by linarith
  qed
  from gap have lt: "a1 < a0" by linarith
  from b0 b1 lt have ab: "\<bar>a0\<bar> \<le> 1" "\<bar>a1\<bar> \<le> 1" by linarith+
  from mercator_gap [OF b1 lt b0] have hg: "(a0 - a1) / 27 \<le> h0 - h1"
    by (simp add: h0_def h1_def)
  with gap have hg': "1 / 55296 \<le> h0 - h1" by argo
  define G where "G = (180 * (h0 - h1)) / Math_PI"
  have eq: "180 * h0 / Math_PI - 180 * h1 / Math_PI = G"
    by (simp add: G_def diff_divide_distrib right_diff_distrib)
  have lb: "(180 * (1 / 55296)) / (16 / 5) \<le> G"
    unfolding G_def using hg' P by (intro frac_le) simp_all
  have c: "(1::real) / 1000 \<le> (180 * (1 / 55296)) / (16 / 5)" by simp
  from c lb have g: "1 / 1000 \<le> G" by (rule order_trans)
  have real_gap: "1 / 1000 \<le> 180 * h0 / Math_PI - 180 * h1 / Math_PI"
    unfolding eq by (rule g)
  from latitude_error [OF acc ab(1)] latitude_error [OF acc ab(2)] real_gap
  show ?thesis unfolding a0_def a1_def h0_def h1_def by argo
qed

text \<open>
  C10, amended. For the zoom levels \<open>0 \<le> z \<le> 12\<close> (the layer asks for 3 to 12) and tile
  indices \<open>0 \<le> x < 2^z\<close>, \<open>0 \<le> y < 2^z\<close>, \<open>tileToBBox\<close> computed in doubles returns a
  box with \<open>minLon < maxLon\<close> and \<open>minLat < maxLat\<close>, whenever \<open>Math.sinh\<close> and
  \<open>Math.atan\<close> are accurate to \<open>10^-9\<close>. The longitudes are computed without any
  rounding error; the two latitudes are more than \<open>10^-3\<close> degrees apart and each is
  computed to within \<open>10^-6\<close>.
\<close>

theorem tileToBBox_double_wellFormed:
  assumes "accurate Math_sinh Math_atan" and "k \<le> 12" and "i < 2 ^ k" and "j < 2 ^ k"
  shows "strictlyWellFormed (tileToBBox_double Math_sinh Math_atan (real i) (real j) (real k))"
proof -
  from assms(2) have p: "(2::nat) ^ k \<le> 4096" by (rule pow2_le_4096)
  with assms(3,4) have i: "i \<le> 4096" "i \<le> 2 ^ k" "i + 1 \<le> 2 ^ k"
    and j: "j \<le> 4096" "j \<le> 2 ^ k" "j + 1 \<le> 2 ^ k" by simp_all
  have si: "fl (real i + 1) = real (i + 1)" using i(1) by (rule fl_succ)
  have sj: "fl (real j + 1) = real (j + 1)" using j(1) by (rule fl_succ)
  have lon0: "fl (fl (fl (real i / fl (2 powr real k)) * 360) - 180) = real i * 360 / 2 ^ k - 180"
    using assms(2) i(2) by (rule lon_exact)
  have lon1: "fl (fl (fl (real (i + 1) / fl (2 powr real k)) * 360) - 180)
      = real (i + 1) * 360 / 2 ^ k - 180"
    using assms(2) i(3) by (rule lon_exact)
  have arg0: "fl (1 - fl (fl (2 * real j) / fl (2 powr real k))) = 1 - 2 * real j / 2 ^ k"
    using assms(2) j(2) by (rule arg_exact)
  have arg1: "fl (1 - fl (fl (2 * real (j + 1)) / fl (2 powr real k))) = 1 - 2 * real (j + 1) / 2 ^ k"
    using assms(2) j(3) by (rule arg_exact)
  have lon: "real i * 360 / 2 ^ k - 180 < real (i + 1) * 360 / 2 ^ k - 180"
    by (simp add: divide_strict_right_mono)
  have lat: "fl (fl (Math_atan (Math_sinh (fl (Math_PI * (1 - 2 * real (j + 1) / 2 ^ k)))) * 180) / Math_PI)
       < fl (fl (Math_atan (Math_sinh (fl (Math_PI * (1 - 2 * real j / 2 ^ k)))) * 180) / Math_PI)"
    using assms(1,2,4) by (rule lat_strict)
  have "tileToBBox_double Math_sinh Math_atan (real i) (real j) (real k) =
      (real i * 360 / 2 ^ k - 180,
       fl (fl (Math_atan (Math_sinh (fl (Math_PI * (1 - 2 * real (j + 1) / 2 ^ k)))) * 180) / Math_PI),
       real (i + 1) * 360 / 2 ^ k - 180,
       fl (fl (Math_atan (Math_sinh (fl (Math_PI * (1 - 2 * real j / 2 ^ k)))) * 180) / Math_PI))"
    unfolding tileToBBox_double_def Let_def
    by (simp only: si sj lon0 lon1 arg0 arg1)
  with lon lat show ?thesis by simp
qed

text \<open>Correctly rounded \<open>sinh\<close> and \<open>arctan\<close> are accurate in this sense.\<close>

lemma abs_sinh_le_cosh: "\<bar>sinh (x::real)\<bar> \<le> cosh x"
proof -
  have "sinh x \<le> cosh x" by (rule sinh_le_cosh_real)
  moreover have "sinh (- x) \<le> cosh (- x)" by (rule sinh_le_cosh_real)
  ultimately show ?thesis by simp
qed

lemma rounded_accurate: "accurate (\<lambda>t. fl (sinh t)) (\<lambda>s. fl (arctan s))"
proof -
  have s: "\<bar>fl (sinh t) - sinh t\<bar> \<le> 1 / 10 ^ 9" if "\<bar>t\<bar> \<le> 4" for t :: real
  proof -
    have "\<bar>sinh t\<bar> \<le> 81" using abs_sinh_le_cosh [of t] cosh_le_81 [OF that] by linarith
    then have "\<bar>sinh t\<bar> / 2 ^ 53 \<le> 81 / 2 ^ 53" by (intro divide_right_mono) simp_all
    with fl_err [of "sinh t"] have "\<bar>fl (sinh t) - sinh t\<bar> \<le> 81 / 2 ^ 53" by linarith
    then show ?thesis by simp
  qed
  have a: "\<bar>fl (arctan s) - arctan s\<bar> \<le> 1 / 10 ^ 9" for s :: real
  proof -
    have "\<bar>arctan s\<bar> \<le> 2" using arctan_bounded [of s] pi_half_less_two by linarith
    then have "\<bar>arctan s\<bar> / 2 ^ 53 \<le> 2 / 2 ^ 53" by (intro divide_right_mono) simp_all
    with fl_err [of "arctan s"] have "\<bar>fl (arctan s) - arctan s\<bar> \<le> 2 / 2 ^ 53" by linarith
    then show ?thesis by simp
  qed
  from s a show ?thesis by (simp add: accurate_def)
qed

theorem tileToBBox_double_wellFormed_witness:
  "accurate (\<lambda>t. fl (sinh t)) (\<lambda>s. fl (arctan s)) \<and> (4::nat) \<le> 12 \<and> (2::nat) < 2 ^ 4 \<and> (3::nat) < 2 ^ 4
   \<and> strictlyWellFormed (tileToBBox_double (\<lambda>t. fl (sinh t)) (\<lambda>s. fl (arctan s)) 2 3 4)"
proof -
  have h: "(4::nat) \<le> 12" "(2::nat) < 2 ^ 4" "(3::nat) < 2 ^ 4" by simp_all
  from tileToBBox_double_wellFormed [OF rounded_accurate h]
  have "strictlyWellFormed (tileToBBox_double (\<lambda>t. fl (sinh t)) (\<lambda>s. fl (arctan s)) 2 3 4)"
    by simp
  with rounded_accurate h show ?thesis by blast
qed

subsection \<open>The colouring loop\<close>

lemma length_writePixel: "length (writePixel data i p) = length data"
  by (cases p) simp

lemma writePixel_below: "j < i * 4 \<Longrightarrow> writePixel data i p ! j = data ! j"
  by (cases p) simp

lemma writePixel_alpha:
  "i * 4 + 3 < length data \<Longrightarrow> writePixel data i p ! (i * 4 + 3) = snd (snd (snd p))"
  by (cases p) simp

lemma length_paint: "length (paint layerName fuelLegend band i data) = length data"
  by (induction band arbitrary: i data) (simp_all add: length_writePixel)

lemma paint_below:
  "j < i * 4 \<Longrightarrow> paint layerName fuelLegend band i data ! j = data ! j"
proof (induction band arbitrary: i data)
  case Nil
  then show ?case by simp
next
  case (Cons v band)
  have "paint layerName fuelLegend band (i + 1) (writePixel data i (pixelOf layerName fuelLegend v)) ! j
      = writePixel data i (pixelOf layerName fuelLegend v) ! j"
    using Cons.prems by (intro Cons.IH) simp
  then show ?case using Cons.prems by (simp add: writePixel_below)
qed

lemma paint_alpha:
  "k < length band \<Longrightarrow> (i + k) * 4 + 3 < length data \<Longrightarrow>
     paint layerName fuelLegend band i data ! ((i + k) * 4 + 3)
       = snd (snd (snd (pixelOf layerName fuelLegend (band ! k))))"
proof (induction band arbitrary: i k data)
  case Nil
  then show ?case by simp
next
  case (Cons v band)
  show ?case
  proof (cases k)
    case 0
    have "paint layerName fuelLegend band (i + 1) (writePixel data i (pixelOf layerName fuelLegend v)) ! (i * 4 + 3)
        = writePixel data i (pixelOf layerName fuelLegend v) ! (i * 4 + 3)"
      by (intro paint_below) simp
    then show ?thesis using 0 Cons.prems by (simp add: writePixel_alpha)
  next
    case (Suc k')
    have "paint layerName fuelLegend band (i + 1) (writePixel data i (pixelOf layerName fuelLegend v)) ! ((i + 1 + k') * 4 + 3)
        = snd (snd (snd (pixelOf layerName fuelLegend (band ! k'))))"
      using Suc Cons.prems by (intro Cons.IH) (simp_all add: length_writePixel)
    then show ?thesis using Suc by simp
  qed
qed

lemma pixelOf_noData: "isNoData v \<Longrightarrow> pixelOf layerName fuelLegend v = (0, 0, 0, 0)"
  by (cases v) simp_all

text \<open>
  C7. A sample that is \<open>null\<close>, \<open>undefined\<close>, \<open>NaN\<close> or negative gives a pixel with
  alpha 0, on the slope layer and on the fuel layer alike: the loop writes four zero bytes
  for it before it looks at the layer, and the alpha byte of that pixel in the finished
  array is 0.
\<close>

theorem noData_alpha_zero:
  assumes "i < length band" and "isNoData (band ! i)" and "i * 4 + 3 < length data"
  shows "pixelOf layerName fuelLegend (band ! i) = (0, 0, 0, 0)
     \<and> paint layerName fuelLegend band 0 data ! (i * 4 + 3) = 0"
proof -
  have p: "pixelOf layerName fuelLegend (band ! i) = (0, 0, 0, 0)"
    using assms(2) by (rule pixelOf_noData)
  have "paint layerName fuelLegend band 0 data ! ((0 + i) * 4 + 3)
      = snd (snd (snd (pixelOf layerName fuelLegend (band ! i))))"
    using assms(1,3) by (intro paint_alpha) simp_all
  with p show ?thesis by simp
qed

theorem noData_alpha_zero_witness:
  "(1::nat) < length [SNum 3, SNaN, SNum (-1)] \<and> isNoData ([SNum 3, SNaN, SNum (-1)] ! 1)
     \<and> 1 * 4 + 3 < length (replicate 12 (0::int))
     \<and> pixelOf slope None ([SNum 3, SNaN, SNum (-1)] ! 1) = (0, 0, 0, 0)
     \<and> paint slope None [SNum 3, SNaN, SNum (-1)] 0 (replicate 12 0) ! (1 * 4 + 3) = 0"
proof -
  have a: "(1::nat) < length [SNum 3, SNaN, SNum (-1)]" by simp
  have b: "isNoData ([SNum 3, SNaN, SNum (-1)] ! 1)" by simp
  have c: "1 * 4 + 3 < length (replicate 12 (0::int))" by simp
  show ?thesis
    using a b c noData_alpha_zero [OF a b c, of slope None] by blast
qed






lemma decimalValue_snoc:
  "decimalValue (s @ [c]) =
     (case (decimalValue s, digitValue c) of (Some a, Some d) \<Rightarrow> Some (10 * a + d) | _ \<Rightarrow> None)"
  by (simp add: decimalValue_def)




text \<open>Every number has a decimal numeral, the string \<open>numberToString\<close> prints.\<close>

lemma digitValue_nth: "n < 10 \<Longrightarrow> digitValue (''0123456789'' ! n) = Some n"
proof -
  assume "n < 10"
  then have "n \<in> set [0..<10]" by simp
  moreover have "\<forall>m \<in> set [0..<10]. digitValue (''0123456789'' ! m) = Some m"
    by code_simp
  ultimately show ?thesis by blast
qed

lemma digits_decimal:
  "decimalValue (digits n) = Some n \<and> digits n \<noteq> [] \<and> (n \<noteq> 0 \<longrightarrow> hd (digits n) \<noteq> CHR ''0'')"
proof (induction n rule: digits.induct)
  case (1 n)
  show ?case
  proof (cases "n < 10")
    case True
    then have d: "digits n = [''0123456789'' ! n]" by (simp add: digits.simps)
    have v: "decimalValue [''0123456789'' ! n] = Some n"
      using digitValue_nth [OF True] by (simp add: decimalValue_def)
    have z: "digitValue CHR ''0'' = Some 0" by (simp add: digitValue_def)
    have "n \<noteq> 0 \<Longrightarrow> ''0123456789'' ! n \<noteq> CHR ''0''"
      using digitValue_nth [OF True] z by auto
    with d v show ?thesis by simp
  next
    case False
    then have d: "digits n = digits (n div 10) @ [''0123456789'' ! (n mod 10)]"
      by (subst digits.simps) simp
    from False have nz: "n div 10 \<noteq> 0" by simp
    from "1.IH" [OF False] nz have ih: "decimalValue (digits (n div 10)) = Some (n div 10)"
      "digits (n div 10) \<noteq> []" "hd (digits (n div 10)) \<noteq> CHR ''0''" by simp_all
    have "digitValue (''0123456789'' ! (n mod 10)) = Some (n mod 10)"
      by (rule digitValue_nth) simp
    with ih(1) have "decimalValue (digits n) = Some (10 * (n div 10) + n mod 10)"
      by (simp add: d decimalValue_snoc)
    with ih(2,3) d show ?thesis by simp
  qed
qed

lemma decimal_exists: "isDecimalOf (numberToString (int n)) n"
proof (cases "n = 0")
  case True
  then show ?thesis
    by (simp add: numberToString_def digits.simps isDecimalOf_def decimalValue_def digitValue_def)
next
  case False
  with digits_decimal [of n] show ?thesis
    by (simp add: numberToString_def isDecimalOf_def)
qed



subsection \<open>Two tiles\<close>


lemma pi_ge_3: "3 \<le> pi"
proof -
  have "sin (pi / 6) \<le> pi / 6" by (rule sin_x_le_x) simp
  then show ?thesis by (simp add: sin_30)
qed

lemma exp_34: "(65/32::real) \<le> exp (3/4)"
  using exp_lower_Taylor_quadratic [of "3/4::real"] by (simp add: power2_eq_square)

lemma sinh_34: "(3/5::real) \<le> sinh (3/4)"
proof -
  have e: "(65/32::real) \<le> exp (3/4)" by (rule exp_34)
  have "exp (- (3/4::real)) = inverse (exp (3/4))" by (rule exp_minus)
  also have "\<dots> \<le> inverse (65/32)" using e by (intro le_imp_inverse_le) simp_all
  finally have m: "exp (- (3/4::real)) \<le> 32/65" by simp
  have "sinh (3/4::real) = (exp (3/4) - exp (- (3/4))) / 2" by (simp add: sinh_field_def)
  with e m show ?thesis by simp
qed

lemma sinh_32: "(7/4::real) \<le> sinh (3/2)"
proof -
  have e: "(65/32::real) \<le> exp (3/4)" by (rule exp_34)
  have "exp (3/2::real) = exp (3/4) ^ 2" using exp_double [of "3/4::real"] by simp
  moreover have "(65/32::real) ^ 2 \<le> exp (3/4) ^ 2" using e by (intro power_mono) simp_all
  ultimately have e2: "(4::real) \<le> exp (3/2)" by (simp add: power2_eq_square)
  have "exp (- (3/2::real)) = inverse (exp (3/2))" by (rule exp_minus)
  also have "\<dots> \<le> inverse 4" using e2 by (intro le_imp_inverse_le) simp_all
  finally have m: "exp (- (3/2::real)) \<le> 1/4" by simp
  have "sinh (3/2::real) = (exp (3/2) - exp (- (3/2))) / 2" by (simp add: sinh_field_def)
  with e2 m show ?thesis by simp
qed

lemma lat_quarter: "30 \<le> arctan (sinh (pi / 4)) * 180 / pi"
proof -
  have "sqrt 3 * (3/5) \<ge> 1"
  proof -
    have "(5/3::real) \<le> sqrt 3" by (rule real_le_rsqrt) (simp add: power2_eq_square)
    then show ?thesis by simp
  qed
  then have "1 / sqrt 3 \<le> 3/5" by (simp add: field_simps)
  also have "\<dots> \<le> sinh (3/4::real)" by (rule sinh_34)
  also have "\<dots> \<le> sinh (pi / 4)" using pi_ge_3 by simp
  finally have "tan (pi / 6) \<le> sinh (pi / 4)" by (simp add: tan_30)
  then have "arctan (tan (pi / 6)) \<le> arctan (sinh (pi / 4))" by (simp add: arctan_le_iff)
  moreover have "arctan (tan (pi / 6)) = pi / 6" by (rule arctan_tan) simp_all
  ultimately have "pi / 6 \<le> arctan (sinh (pi / 4))" by simp
  then have "pi / 6 * 180 / pi \<le> arctan (sinh (pi / 4)) * 180 / pi"
    by (intro divide_right_mono mult_right_mono) simp_all
  then show ?thesis by simp
qed

lemma lat_half: "60 \<le> arctan (sinh (pi / 2)) * 180 / pi"
proof -
  have "sqrt 3 \<le> 7/4" by (rule real_le_lsqrt) (simp_all add: power2_eq_square)
  also have "\<dots> \<le> sinh (3/2::real)" by (rule sinh_32)
  also have "\<dots> \<le> sinh (pi / 2)" using pi_ge_3 by simp
  finally have "tan (pi / 3) \<le> sinh (pi / 2)" by (simp add: tan_60)
  then have "arctan (tan (pi / 3)) \<le> arctan (sinh (pi / 2))" by (simp add: arctan_le_iff)
  moreover have "arctan (tan (pi / 3)) = pi / 3"
  proof (rule arctan_tan)
    show "- (pi / 2) < pi / 3" using pi_gt_zero by linarith
    show "pi / 3 < pi / 2" using pi_gt_zero by linarith
  qed
  ultimately have "pi / 3 \<le> arctan (sinh (pi / 2))" by simp
  then have "pi / 3 * 180 / pi \<le> arctan (sinh (pi / 2)) * 180 / pi"
    by (intro divide_right_mono mult_right_mono) simp_all
  then show ?thesis by simp
qed

lemma tileToBBox_2_3_3: "\<exists>L. tileToBBox 2 3 3 = (-90, 0, -45, L) \<and> 30 \<le> L"
proof -
  have p: "(2::real) powr 3 = 8" by simp
  show ?thesis using lat_quarter by (simp add: tileToBBox_def Let_def p)
qed

lemma tileToBBox_2_3_4: "\<exists>L U. tileToBBox 2 3 4 = (-135, L, -225/2, U) \<and> 60 \<le> L"
proof -
  have p: "(2::real) powr 4 = 16" by simp
  show ?thesis using lat_half by (simp add: tileToBBox_def Let_def p)
qed

subsection \<open>Overview selection\<close>

text \<open>
  The two divisions of \<open>computeSourcePixels\<close> are only reached with a positive divisor:
  a clamped box that is not empty lies inside the box of the image.
\<close>

lemma computeSourcePixels_divisors:
  assumes "computeSourcePixels (tMinX, tMinY, tMaxX, tMaxY) (imgMinX, imgMinY, imgMaxX, imgMaxY) img \<noteq> 0"
  shows "imgMinX < imgMaxX \<and> imgMinY < imgMaxY"
proof -
  from assms have "\<not> (min tMaxX imgMaxX \<le> max tMinX imgMinX \<or> min tMaxY imgMaxY \<le> max tMinY imgMinY)"
    by (auto simp: Let_def split: if_splits)
  then show ?thesis by (auto simp: min_def max_def split: if_splits)
qed

lemma scan_calls: "scanOverviews tiff est k = (cs, r) \<Longrightarrow> filter isRead cs = []"
proof (induction k arbitrary: cs r)
  case 0
  then show ?case by simp
next
  case (Suc k)
  then show ?case
    by (auto simp: Let_def split: sum.splits if_splits prod.splits)
qed

lemma scan_None:
  "scanOverviews tiff est k = (cs, Inr None) \<Longrightarrow> j < k \<Longrightarrow>
     \<exists>img. getImage tiff (int j) = Inr img \<and> SAFE_SOURCE_PIXELS < est img"
proof (induction k arbitrary: cs)
  case 0
  then show ?case by simp
next
  case (Suc k)
  from Suc.prems(1) obtain img cs' where
    g: "getImage tiff (int k) = Inr img" and
    big: "SAFE_SOURCE_PIXELS < est img" and
    rest: "scanOverviews tiff est k = (cs', Inr None)"
    by (auto simp: Let_def split: sum.splits if_splits prod.splits)
  show ?case
  proof (cases "j = k")
    case True
    with g big show ?thesis by simp
  next
    case False
    with Suc.prems(2) have "j < k" by simp
    with rest show ?thesis by (rule Suc.IH)
  qed
qed

lemma scan_Some:
  "scanOverviews tiff est k = (cs, Inr (Some (idx, img, pix))) \<Longrightarrow>
     0 \<le> idx \<and> idx < int k \<and> getImage tiff idx = Inr img \<and> pix = est img
     \<and> pix \<le> SAFE_SOURCE_PIXELS
     \<and> (\<forall>j. idx < int j \<and> j < k \<longrightarrow>
           (\<exists>im. getImage tiff (int j) = Inr im \<and> SAFE_SOURCE_PIXELS < est im))"
proof (induction k arbitrary: cs)
  case 0
  then show ?case by simp
next
  case (Suc k)
  show ?case
  proof (cases "getImage tiff (int k)")
    case (Inl e)
    with Suc.prems show ?thesis by simp
  next
    case (Inr im)
    show ?thesis
    proof (cases "est im = 0 \<or> est im \<le> SAFE_SOURCE_PIXELS")
      case True
      with Suc.prems Inr have "idx = int k" "img = im" "pix = est im"
        by (auto simp: Let_def split: if_splits)
      with True Inr show ?thesis by (auto simp: SAFE_SOURCE_PIXELS_def)
    next
      case False
      with Suc.prems Inr obtain cs' where
        rest: "scanOverviews tiff est k = (cs', Inr (Some (idx, img, pix)))"
        by (auto simp: Let_def split: if_splits prod.splits)
      from Suc.IH [OF rest] have ih:
        "0 \<le> idx" "idx < int k" "getImage tiff idx = Inr img" "pix = est img"
        "pix \<le> SAFE_SOURCE_PIXELS"
        "\<forall>j. idx < int j \<and> j < k \<longrightarrow>
           (\<exists>im. getImage tiff (int j) = Inr im \<and> SAFE_SOURCE_PIXELS < est im)"
        by simp_all
      have "\<exists>im'. getImage tiff (int j) = Inr im' \<and> SAFE_SOURCE_PIXELS < est im'"
        if "idx < int j" "j < Suc k" for j
      proof (cases "j = k")
        case True
        with Inr False show ?thesis by auto
      next
        case False
        with that have "j < k" by simp
        with ih(6) that(1) show ?thesis by blast
      qed
      with ih show ?thesis by simp
    qed
  qed
qed

lemma chooseOverview_Inr:
  assumes "chooseOverview tiff n est = (cs, Inr (idx, img, pix))"
  shows "filter isRead cs = []"
    and "\<exists>im. getImage tiff (int n - 1) = Inr im"
    and "getImage tiff idx = Inr img"
    and "pix = est img"
    and "idx < int n"
    and "(0 \<le> idx \<and> pix \<le> SAFE_SOURCE_PIXELS
           \<and> (\<forall>j. idx < j \<and> j < int n \<longrightarrow>
                 (\<exists>im. getImage tiff j = Inr im \<and> SAFE_SOURCE_PIXELS < est im)))
         \<or> (idx = int n - 1
           \<and> (\<forall>j. 0 \<le> j \<and> j < int n \<longrightarrow>
                 (\<exists>im. getImage tiff j = Inr im \<and> SAFE_SOURCE_PIXELS < est im)))"
proof -
  from assms obtain chosenImage where c: "getImage tiff (int n - 1) = Inr chosenImage"
    by (auto simp: chooseOverview_def Let_def split: sum.splits)
  obtain cs' r where s: "scanOverviews tiff est n = (cs', r)"
    by (cases "scanOverviews tiff est n") auto
  from assms c s have cs: "cs = GetImage (int n - 1) # cs'"
    by (auto simp: chooseOverview_def Let_def split: sum.splits option.splits)
  from scan_calls [OF s] cs show "filter isRead cs = []" by simp
  from c show "\<exists>im. getImage tiff (int n - 1) = Inr im" by blast
  consider (none) "r = Inr None" | (some) "r = Inr (Some (idx, img, pix))"
    using assms c s by (auto simp: chooseOverview_def Let_def split: sum.splits option.splits)
  then have "getImage tiff idx = Inr img \<and> pix = est img \<and> idx < int n
       \<and> ((0 \<le> idx \<and> pix \<le> SAFE_SOURCE_PIXELS
           \<and> (\<forall>j. idx < j \<and> j < int n \<longrightarrow>
                 (\<exists>im. getImage tiff j = Inr im \<and> SAFE_SOURCE_PIXELS < est im)))
         \<or> (idx = int n - 1
           \<and> (\<forall>j. 0 \<le> j \<and> j < int n \<longrightarrow>
                 (\<exists>im. getImage tiff j = Inr im \<and> SAFE_SOURCE_PIXELS < est im))))"
  proof cases
    case none
    with assms c s have e: "idx = int n - 1" "img = chosenImage" "pix = est chosenImage"
      by (auto simp: chooseOverview_def Let_def)
    have "\<exists>im. getImage tiff j = Inr im \<and> SAFE_SOURCE_PIXELS < est im"
      if "0 \<le> j" "j < int n" for j
    proof -
      from that have "nat j < n" by simp
      from scan_None [OF s [unfolded none] this] that(1) show ?thesis by simp
    qed
    with e c show ?thesis by simp
  next
    case some
    from scan_Some [OF s [unfolded some]] have ih:
      "0 \<le> idx" "idx < int n" "getImage tiff idx = Inr img" "pix = est img"
      "pix \<le> SAFE_SOURCE_PIXELS"
      "\<forall>j. idx < int j \<and> j < n \<longrightarrow>
         (\<exists>im. getImage tiff (int j) = Inr im \<and> SAFE_SOURCE_PIXELS < est im)"
      by simp_all
    have "\<exists>im. getImage tiff j = Inr im \<and> SAFE_SOURCE_PIXELS < est im"
      if "idx < j" "j < int n" for j
    proof -
      from that ih(1) have "idx < int (nat j)" "nat j < n" by simp_all
      with ih(6) have "\<exists>im. getImage tiff (int (nat j)) = Inr im \<and> SAFE_SOURCE_PIXELS < est im"
        by blast
      moreover from that ih(1) have "int (nat j) = j" by simp
      ultimately show ?thesis by simp
    qed
    with ih show ?thesis by simp
  qed
  then show "getImage tiff idx = Inr img" and "pix = est img" and "idx < int n"
    and "(0 \<le> idx \<and> pix \<le> SAFE_SOURCE_PIXELS
           \<and> (\<forall>j. idx < j \<and> j < int n \<longrightarrow>
                 (\<exists>im. getImage tiff j = Inr im \<and> SAFE_SOURCE_PIXELS < est im)))
         \<or> (idx = int n - 1
           \<and> (\<forall>j. 0 \<le> j \<and> j < int n \<longrightarrow>
                 (\<exists>im. getImage tiff j = Inr im \<and> SAFE_SOURCE_PIXELS < est im)))"
    by blast+
qed

lemma prepare_Inr:
  assumes "prepare w tileBounds ts px cache = Inr sel"
  shows "\<exists>cs. chooseOverview (selTiff sel) (selImageCount sel)
            (computeSourcePixels tileBounds (selImgBbox sel))
          = (cs, Inr (selIndex sel, selImage sel, selPixels sel))
        \<and> selCalls sel = [FromUrl, GetImageCount, GetImage 0] @ cs"
  using assms
  by (auto simp: prepare_def split: if_splits sum.splits option.splits prod.splits)

lemma prepare_no_read:
  assumes "prepare w tileBounds ts px cache = Inr sel"
  shows "filter isRead (selCalls sel) = []"
proof -
  from prepare_Inr [OF assms] obtain cs where
    c: "chooseOverview (selTiff sel) (selImageCount sel)
            (computeSourcePixels tileBounds (selImgBbox sel))
          = (cs, Inr (selIndex sel, selImage sel, selPixels sel))"
    and s: "selCalls sel = [FromUrl, GetImageCount, GetImage 0] @ cs" by blast
  from chooseOverview_Inr(1) [OF c] s show ?thesis by simp
qed

lemma prepare_selection:
  assumes "prepare w tileBounds ts px cache = Inr sel"
  shows "getImage (selTiff sel) (selIndex sel) = Inr (selImage sel)
     \<and> selPixels sel = computeSourcePixels tileBounds (selImgBbox sel) (selImage sel)
     \<and> selIndex sel < int (selImageCount sel)
     \<and> ((0 \<le> selIndex sel \<and> selPixels sel \<le> SAFE_SOURCE_PIXELS
           \<and> (\<forall>j. selIndex sel < j \<and> j < int (selImageCount sel) \<longrightarrow>
                 (\<exists>im. getImage (selTiff sel) j = Inr im
                    \<and> SAFE_SOURCE_PIXELS < computeSourcePixels tileBounds (selImgBbox sel) im)))
         \<or> (selIndex sel = int (selImageCount sel) - 1
           \<and> (\<forall>j. 0 \<le> j \<and> j < int (selImageCount sel) \<longrightarrow>
                 (\<exists>im. getImage (selTiff sel) j = Inr im
                    \<and> SAFE_SOURCE_PIXELS < computeSourcePixels tileBounds (selImgBbox sel) im))))"
proof -
  from prepare_Inr [OF assms] obtain cs where
    c: "chooseOverview (selTiff sel) (selImageCount sel)
            (computeSourcePixels tileBounds (selImgBbox sel))
          = (cs, Inr (selIndex sel, selImage sel, selPixels sel))" by blast
  from chooseOverview_Inr(3,4,5,6) [OF c] show ?thesis by blast
qed

lemma over_hard_is_coarsest:
  assumes "prepare w tileBounds ts px cache = Inr sel"
    and "selPixels sel > HARD_LIMIT_SOURCE_PIXELS"
  shows "selIndex sel = int (selImageCount sel) - 1"
  using prepare_selection [OF assms(1)] assms(2)
  by (auto simp: SAFE_SOURCE_PIXELS_def HARD_LIMIT_SOURCE_PIXELS_def)

lemma prepare_coarsest_image:
  assumes "prepare w tileBounds ts px cache = Inr sel"
  shows "\<exists>im. getImage (selTiff sel) (int (selImageCount sel) - 1) = Inr im"
proof -
  from prepare_Inr [OF assms] obtain cs where
    c: "chooseOverview (selTiff sel) (selImageCount sel)
            (computeSourcePixels tileBounds (selImgBbox sel))
          = (cs, Inr (selIndex sel, selImage sel, selPixels sel))" by blast
  from chooseOverview_Inr(2) [OF c] show ?thesis .
qed

lemma tile_4_2_3_outside: "\<not> bboxesIntersect (tileToBBox 2 3 4) COG_BOUNDS"
proof -
  from tileToBBox_2_3_4 obtain L U where t: "tileToBBox 2 3 4 = (-135, L, -225/2, U)" and l: "60 \<le> L"
    by blast
  from l show ?thesis by (simp add: t COG_BOUNDS_def)
qed

text \<open>
  C3. When the box of the requested tile does not intersect \<open>COG_BOUNDS\<close>, the job
  makes no network or decode call at all and calls \<open>done(undefined, canvas)\<close> with a
  canvas whose bytes are all 0, that is a fully transparent tile.
\<close>

theorem outside_bounds_transparent:
  assumes "\<not> bboxesIntersect (tileToBBox (coords_x c) (coords_y c) (coords_z c)) COG_BOUNDS"
  shows "createTile w layerName c ts cache
     = \<lparr>calls = [], doneErr = None, canvas = replicate (4 * ts * ts) 0, legendCache = cache\<rparr>"
  using assms
  by (simp add: createTile_def renderCogTile_def prepare_def transparent_def clearRect_def)

text \<open>
  The scenario of C3: tile z = 4, x = 2, y = 3 lies north of the enforced extent; nothing
  is requested even though no file could be opened.
\<close>

theorem outside_bounds_transparent_witness:
  "\<not> bboxesIntersect (tileToBBox 2 3 4) COG_BOUNDS
   \<and> createTile offlineWorld slope \<lparr>coords_z = 4, coords_x = 2, coords_y = 3\<rparr> 256 None
     = \<lparr>calls = [], doneErr = None, canvas = replicate (4 * 256 * 256) 0, legendCache = None\<rparr>"
proof -
  let ?c = "\<lparr>coords_z = 4, coords_x = 2, coords_y = 3\<rparr>"
  have h: "\<not> bboxesIntersect (tileToBBox (coords_x ?c) (coords_y ?c) (coords_z ?c)) COG_BOUNDS"
    using tile_4_2_3_outside by simp
  from outside_bounds_transparent [OF h, of offlineWorld slope 256 None] tile_4_2_3_outside
  show ?thesis by blast
qed

lemma tile_3_2_3_inside:
  "bboxesIntersect (tileToBBox 2 3 3) COG_BOUNDS
   \<and> bboxesIntersect (tileToBBox 2 3 3) (-80, 45 / 2, -70, 30)"
proof -
  from tileToBBox_2_3_3 obtain L where t: "tileToBBox 2 3 3 = (-90, 0, -45, L)" and l: "30 \<le> L"
    by blast
  from l show ?thesis by (simp add: t COG_BOUNDS_def)
qed

lemma est_tile_3_2_3:
  "computeSourcePixels (tileToBBox 2 3 3) (-80, 45 / 2, -70, 30) img
     = int (getWidth img) * int (getHeight img)"
proof -
  from tileToBBox_2_3_3 obtain L where t: "tileToBBox 2 3 3 = (-90, 0, -45, L)" and l: "30 \<le> L"
    by blast
  from l have m: "min L 30 = 30" by simp
  show ?thesis by (simp add: t m Let_def)
qed

lemma prepare_coarse:
  "prepare coarseWorld (tileToBBox 2 3 3) ts px cache =
     Inr \<lparr>selTiff = coarseTiff, selImageCount = 1, selImgBbox = (-80, 45 / 2, -70, 30),
          selIndex = 0, selImage = coarseImage, selPixels = 60000000,
          selCalls = [FromUrl, GetImageCount, GetImage 0, GetImage 0, GetImage 0]\<rparr>"
proof -
  have g: "getImage coarseTiff 0 = Inr coarseImage" by (simp add: coarseTiff_def)
  have b: "imageBoundingBox coarseImage = Some (-80, 45 / 2, -70, 30)"
    by (simp add: imageBoundingBox_def coarseImage_def)
  have e: "computeSourcePixels (tileToBBox 2 3 3) (-80, 45 / 2, -70, 30) coarseImage = 60000000"
    by (simp add: est_tile_3_2_3 coarseImage_def)
  have s: "scanOverviews coarseTiff (computeSourcePixels (tileToBBox 2 3 3) (-80, 45 / 2, -70, 30)) (Suc 0)
      = ([GetImage 0], Inr None)"
    by (simp add: g e SAFE_SOURCE_PIXELS_def)
  have c: "chooseOverview coarseTiff (Suc 0) (computeSourcePixels (tileToBBox 2 3 3) (-80, 45 / 2, -70, 30))
      = ([GetImage 0, GetImage 0], Inr (0, coarseImage, 60000000))"
    by (simp add: chooseOverview_def g e s)
  have n: "getImageCount coarseTiff = Inr 1" by (simp add: coarseTiff_def)
  have f: "fromUrl coarseWorld = Inr coarseTiff" by (simp add: coarseWorld_def)
  show ?thesis
    using tile_3_2_3_inside by (simp add: prepare_def f n g b c)
qed


subsection \<open>Hard limit and read\<close>

lemma prepare_pyramid:
  "prepare \<lparr>fromUrl = Inr (pyramidTiff rd), getContext = True, legendResponse = None\<rparr>
       (tileToBBox 2 3 3) ts px cache =
     Inr \<lparr>selTiff = pyramidTiff rd, selImageCount = 3, selImgBbox = (-80, 45 / 2, -70, 30),
          selIndex = 2, selImage = pyramidImage 1000 750, selPixels = 750000,
          selCalls = [FromUrl, GetImageCount, GetImage 0, GetImage 2, GetImage 2]\<rparr>"
proof -
  let ?est = "computeSourcePixels (tileToBBox 2 3 3) (-80, 45 / 2, -70, 30)"
  have g0: "getImage (pyramidTiff rd) 0 = Inr (pyramidImage 4000 3000)"
    by (simp add: pyramidTiff_def)
  have g2: "getImage (pyramidTiff rd) 2 = Inr (pyramidImage 1000 750)"
    by (simp add: pyramidTiff_def)
  have b: "imageBoundingBox (pyramidImage 4000 3000) = Some (-80, 45 / 2, -70, 30)"
    by (simp add: imageBoundingBox_def pyramidImage_def)
  have e: "?est (pyramidImage 1000 750) = 750000"
    by (simp add: est_tile_3_2_3 pyramidImage_def)
  have s: "scanOverviews (pyramidTiff rd) ?est (Suc 2)
      = ([GetImage 2], Inr (Some (2, pyramidImage 1000 750, 750000)))"
    by (simp only: scanOverviews.simps) (simp add: g2 e SAFE_SOURCE_PIXELS_def)
  have "chooseOverview (pyramidTiff rd) (Suc 2) ?est
      = ([GetImage 2, GetImage 2], Inr (2, pyramidImage 1000 750, 750000))"
    by (simp only: chooseOverview_def s) (simp add: g2 e)
  then have c: "chooseOverview (pyramidTiff rd) 3 ?est
      = ([GetImage 2, GetImage 2], Inr (2, pyramidImage 1000 750, 750000))"
    by simp
  have n: "getImageCount (pyramidTiff rd) = Inr 3" by (simp add: pyramidTiff_def)
  show ?thesis
    using tile_3_2_3_inside by (simp add: prepare_def n g0 b c)
qed

lemma readWithFallback_first:
  "\<exists>rs. fst (readWithFallback tiff n ci box ts) = ReadRasters ci box ts ts # rs"
  by (simp add: readWithFallback_def Let_def split: sum.splits)

lemma calls_colorize: "\<exists>lc. calls (colorize w layerName ts px cache cs rasters) = cs @ lc"
  by (simp add: colorize_def failed_def fetchFuelLegend_def Let_def
      split: option.splits list.splits)

lemma reads_colorize:
  "filter isRead (calls (colorize w layerName ts px cache cs rasters)) = filter isRead cs"
  by (simp add: colorize_def failed_def fetchFuelLegend_def Let_def
      split: option.splits list.splits)

text \<open>
  C1 as stated fails. Slope layer, tile 3/2/3, a file whose only level is estimated at
  60,000,000 source pixels, above the hard limit of 50,000,000: the job ends with
  \<open>done(undefined, canvas)\<close>, so no failure is delivered to the caller.
\<close>

theorem strict_abort_counterexample:
  "prepare coarseWorld (tileToBBox 2 3 3) 256 (replicate (4 * 256 * 256) 0) None =
     Inr \<lparr>selTiff = coarseTiff, selImageCount = 1, selImgBbox = (-80, 45 / 2, -70, 30),
          selIndex = 0, selImage = coarseImage, selPixels = 60000000,
          selCalls = [FromUrl, GetImageCount, GetImage 0, GetImage 0, GetImage 0]\<rparr>
   \<and> HARD_LIMIT_SOURCE_PIXELS < 60000000
   \<and> doneErr (createTile coarseWorld slope \<lparr>coords_z = 3, coords_x = 2, coords_y = 3\<rparr> 256 None)
       = None"
  by (simp add: prepare_coarse createTile_def renderCogTile_def render_def transparent_def
      HARD_LIMIT_SOURCE_PIXELS_def)

text \<open>
  C1, amended. Whenever the estimate of the chosen level exceeds
  \<open>HARD_LIMIT_SOURCE_PIXELS\<close> (50,000,000), the chosen level is the coarsest one. The
  slope layer then stops before any raster read, clears the canvas and calls
  \<open>done(undefined, canvas)\<close>: a transparent tile, with no error passed to the caller. The
  fuel layer fetches the coarsest level again and reads it.
\<close>

theorem hard_limit_policy:
  assumes "prepare w tileBounds ts px cache = Inr sel"
    and "selPixels sel > HARD_LIMIT_SOURCE_PIXELS"
  shows "selIndex sel = int (selImageCount sel) - 1
     \<and> render w slope ts px cache sel
         = \<lparr>calls = selCalls sel, doneErr = None, canvas = clearRect w ts px, legendCache = cache\<rparr>
     \<and> filter isRead (selCalls sel) = []
     \<and> (\<exists>rest. calls (render w fuel ts px cache sel)
           = selCalls sel @ [GetImage (selIndex sel),
               ReadRasters (selIndex sel) (selImgBbox sel) ts ts] @ rest)"
proof -
  have i: "selIndex sel = int (selImageCount sel) - 1"
    using assms by (rule over_hard_is_coarsest)
  have s: "render w slope ts px cache sel
         = \<lparr>calls = selCalls sel, doneErr = None, canvas = clearRect w ts px, legendCache = cache\<rparr>"
    using assms(2) by (simp add: render_def transparent_def Let_def)
  have n: "filter isRead (selCalls sel) = []"
    using assms(1) by (rule prepare_no_read)
  from prepare_coarsest_image [OF assms(1)] i obtain im where
    g: "getImage (selTiff sel) (selIndex sel) = Inr im" by auto
  obtain rs res where
    r: "readWithFallback (selTiff sel) (selImageCount sel) (selIndex sel) (selImgBbox sel) ts = (rs, res)"
    by (cases "readWithFallback (selTiff sel) (selImageCount sel) (selIndex sel) (selImgBbox sel) ts") auto
  from readWithFallback_first [of "selTiff sel" "selImageCount sel" "selIndex sel" "selImgBbox sel" ts] r
  obtain rs' where rs: "rs = ReadRasters (selIndex sel) (selImgBbox sel) ts ts # rs'" by auto
  have f: "\<exists>rest. calls (render w fuel ts px cache sel)
           = selCalls sel @ [GetImage (selIndex sel),
               ReadRasters (selIndex sel) (selImgBbox sel) ts ts] @ rest"
  proof (cases res)
    case (Inl err2)
    with assms(2) g r rs i show ?thesis
      by (simp add: render_def Let_def failed_def)
  next
    case (Inr rasters)
    from calls_colorize obtain lc where
      "calls (colorize w fuel ts px cache ((selCalls sel @ [GetImage (selIndex sel)]) @ rs) rasters)
         = ((selCalls sel @ [GetImage (selIndex sel)]) @ rs) @ lc" by blast
    with Inr assms(2) g r rs i show ?thesis
      by (simp add: render_def Let_def)
  qed
  from i s n f show ?thesis by blast
qed

theorem hard_limit_policy_witness:
  "prepare coarseWorld (tileToBBox 2 3 3) 256 (replicate (4 * 256 * 256) 0) None =
     Inr \<lparr>selTiff = coarseTiff, selImageCount = 1, selImgBbox = (-80, 45 / 2, -70, 30),
          selIndex = 0, selImage = coarseImage, selPixels = 60000000,
          selCalls = [FromUrl, GetImageCount, GetImage 0, GetImage 0, GetImage 0]\<rparr>
   \<and> HARD_LIMIT_SOURCE_PIXELS < 60000000
   \<and> render coarseWorld slope 256 (replicate (4 * 256 * 256) 0) None
        \<lparr>selTiff = coarseTiff, selImageCount = 1, selImgBbox = (-80, 45 / 2, -70, 30),
         selIndex = 0, selImage = coarseImage, selPixels = 60000000,
         selCalls = [FromUrl, GetImageCount, GetImage 0, GetImage 0, GetImage 0]\<rparr>
       = \<lparr>calls = [FromUrl, GetImageCount, GetImage 0, GetImage 0, GetImage 0], doneErr = None,
          canvas = replicate (4 * 256 * 256) 0, legendCache = None\<rparr>
   \<and> (\<exists>rest. calls (render coarseWorld fuel 256 (replicate (4 * 256 * 256) 0) None
        \<lparr>selTiff = coarseTiff, selImageCount = 1, selImgBbox = (-80, 45 / 2, -70, 30),
         selIndex = 0, selImage = coarseImage, selPixels = 60000000,
         selCalls = [FromUrl, GetImageCount, GetImage 0, GetImage 0, GetImage 0]\<rparr>)
       = [FromUrl, GetImageCount, GetImage 0, GetImage 0, GetImage 0, GetImage 0,
          ReadRasters 0 (-80, 45 / 2, -70, 30) 256 256] @ rest)"
proof -
  let ?px = "replicate (4 * 256 * 256) (0::int)"
  let ?sel = "\<lparr>selTiff = coarseTiff, selImageCount = 1, selImgBbox = (-80, 45 / 2, -70, 30),
          selIndex = 0, selImage = coarseImage, selPixels = 60000000,
          selCalls = [FromUrl, GetImageCount, GetImage 0, GetImage 0, GetImage 0]\<rparr>"
  have p: "prepare coarseWorld (tileToBBox 2 3 3) 256 ?px None = Inr ?sel"
    by (rule prepare_coarse)
  have h: "selPixels ?sel > HARD_LIMIT_SOURCE_PIXELS"
    by (simp add: HARD_LIMIT_SOURCE_PIXELS_def)
  have c: "clearRect coarseWorld 256 ?px = ?px"
    by (simp add: clearRect_def)
  from hard_limit_policy [OF p h] have
    "render coarseWorld slope 256 ?px None ?sel
         = \<lparr>calls = selCalls ?sel, doneErr = None, canvas = clearRect coarseWorld 256 ?px,
            legendCache = None\<rparr>"
    and "\<exists>rest. calls (render coarseWorld fuel 256 ?px None ?sel)
           = selCalls ?sel @ [GetImage (selIndex ?sel),
               ReadRasters (selIndex ?sel) (selImgBbox ?sel) 256 256] @ rest"
    by blast+
  with p h c show ?thesis by (simp add: HARD_LIMIT_SOURCE_PIXELS_def)
qed

lemma prepare_steady:
  "prepare steadyWorld (tileToBBox 2 3 3) ts px cache
     = Inr (pyramidSelection (\<lambda>n i box w h. Inr [[SNum 2]]))"
  unfolding steadyWorld_def pyramidSelection_def by (rule prepare_pyramid)

lemma prepare_flaky:
  "prepare flakyWorld (tileToBBox 2 3 3) ts px cache
     = Inr (pyramidSelection (\<lambda>n i box w h. if n = 0 then Inl ''read failed'' else Inr [[SNum 2]]))"
  unfolding flakyWorld_def pyramidSelection_def by (rule prepare_pyramid)



text \<open>
  C6. When the read of the chosen level throws, the job reads exactly once more, from the
  coarsest level (index \<open>imageCount - 1\<close>). If that read throws too, its error is passed
  to \<open>done\<close> and the canvas is left as it was; if it answers, the job goes on to the
  colouring with the rasters of the retry.
\<close>

theorem read_retry_once:
  assumes "prepare w tileBounds ts px cache = Inr sel"
    and "layerName = fuel \<or> selPixels sel \<le> HARD_LIMIT_SOURCE_PIXELS"
    and "readRasters (selTiff sel) 0 (selIndex sel) (selImgBbox sel) ts ts = Inl err"
  shows "filter isRead (calls (render w layerName ts px cache sel))
       = [ReadRasters (selIndex sel) (selImgBbox sel) ts ts,
          ReadRasters (int (selImageCount sel) - 1) (selImgBbox sel) ts ts]
     \<and> (case readRasters (selTiff sel) 1 (int (selImageCount sel) - 1) (selImgBbox sel) ts ts of
           Inl err2 \<Rightarrow>
             doneErr (render w layerName ts px cache sel) = Some err2
             \<and> canvas (render w layerName ts px cache sel) = px
         | Inr rasters \<Rightarrow>
             (\<exists>cs. render w layerName ts px cache sel
                = colorize w layerName ts px cache cs rasters))"
proof -
  let ?tiff = "selTiff sel" and ?n = "selImageCount sel" and ?box = "selImgBbox sel"
  let ?smallest = "int (selImageCount sel) - 1"
  from prepare_coarsest_image [OF assms(1)] obtain fallback where
    g: "getImage ?tiff ?smallest = Inr fallback" by blast
  have n: "filter isRead (selCalls sel) = []"
    using assms(1) by (rule prepare_no_read)
  have rw: "readWithFallback ?tiff ?n (selIndex sel) ?box ts =
      (case readRasters ?tiff 1 ?smallest ?box ts ts of
         Inl err2 \<Rightarrow>
           ([ReadRasters (selIndex sel) ?box ts ts, GetImage ?smallest,
             ReadRasters ?smallest ?box ts ts], Inl err2)
       | Inr rasters \<Rightarrow>
           ([ReadRasters (selIndex sel) ?box ts ts, GetImage ?smallest,
             ReadRasters ?smallest ?box ts ts], Inr rasters))"
    using assms(3) g by (simp add: readWithFallback_def Let_def)
  show ?thesis
  proof (cases "selPixels sel > HARD_LIMIT_SOURCE_PIXELS")
    case True
    with assms(2) have l: "layerName = fuel" by simp
    have i: "selIndex sel = ?smallest"
      using assms(1) True by (rule over_hard_is_coarsest)
    show ?thesis
    proof (cases "readRasters ?tiff 1 ?smallest ?box ts ts")
      case (Inl err2)
      with True l g rw i n show ?thesis
        by (simp add: render_def Let_def failed_def)
    next
      case (Inr rasters)
      with True l g rw i n show ?thesis
        by (auto simp: render_def Let_def reads_colorize)
    qed
  next
    case False
    show ?thesis
    proof (cases "readRasters ?tiff 1 ?smallest ?box ts ts")
      case (Inl err2)
      with False rw n show ?thesis
        by (simp add: render_def Let_def failed_def)
    next
      case (Inr rasters)
      with False rw n show ?thesis
        by (auto simp: render_def Let_def reads_colorize)
    qed
  qed
qed

theorem read_retry_once_witness:
  "prepare flakyWorld (tileToBBox 2 3 3) 256 [] None
     = Inr (pyramidSelection (\<lambda>n i box w h. if n = 0 then Inl ''read failed'' else Inr [[SNum 2]]))
   \<and> (slope = fuel \<or> selPixels (pyramidSelection (\<lambda>n i box w h. if n = 0 then Inl ''read failed'' else Inr [[SNum 2]]))
         \<le> HARD_LIMIT_SOURCE_PIXELS)
   \<and> readRasters (selTiff (pyramidSelection (\<lambda>n i box w h. if n = 0 then Inl ''read failed'' else Inr [[SNum 2]])))
        0 2 (-80, 45 / 2, -70, 30) 256 256 = Inl ''read failed''
   \<and> filter isRead (calls (render flakyWorld slope 256 [] None
        (pyramidSelection (\<lambda>n i box w h. if n = 0 then Inl ''read failed'' else Inr [[SNum 2]]))))
       = [ReadRasters 2 (-80, 45 / 2, -70, 30) 256 256, ReadRasters 2 (-80, 45 / 2, -70, 30) 256 256]
   \<and> doneErr (render flakyWorld slope 256 [] None
        (pyramidSelection (\<lambda>n i box w h. if n = 0 then Inl ''read failed'' else Inr [[SNum 2]])))
       = None"
proof -
  let ?rd = "\<lambda>(n::nat) (i::int) (box::bbox) (w::nat) (h::nat).
      if n = 0 then (Inl ''read failed'' :: exn + sample list list) else Inr [[SNum 2]]"
  let ?S = "pyramidSelection ?rd"
  have p: "prepare flakyWorld (tileToBBox 2 3 3) 256 [] None = Inr ?S"
    by (rule prepare_flaky)
  have i: "selIndex ?S = 2" "selImgBbox ?S = (-80, 45 / 2, -70, 30)" "selImageCount ?S = 3"
    "selPixels ?S = 750000" "selTiff ?S = pyramidTiff ?rd"
    by (simp_all add: pyramidSelection_def)
  have h: "slope = fuel \<or> selPixels ?S \<le> HARD_LIMIT_SOURCE_PIXELS"
    by (simp add: i HARD_LIMIT_SOURCE_PIXELS_def)
  have r0: "readRasters (selTiff ?S) 0 (selIndex ?S) (selImgBbox ?S) 256 256 = Inl ''read failed''"
    by (simp add: i pyramidTiff_def)
  have r1: "readRasters (selTiff ?S) 1 (int (selImageCount ?S) - 1) (selImgBbox ?S) 256 256
      = Inr [[SNum 2]]"
    by (simp add: i pyramidTiff_def)
  from read_retry_once [OF p h r0] r1 have
    a: "filter isRead (calls (render flakyWorld slope 256 [] None ?S))
       = [ReadRasters (selIndex ?S) (selImgBbox ?S) 256 256,
          ReadRasters (int (selImageCount ?S) - 1) (selImgBbox ?S) 256 256]"
    and "\<exists>cs. render flakyWorld slope 256 [] None ?S
                = colorize flakyWorld slope 256 [] None cs [[SNum 2]]"
    by simp_all
  then obtain cs where
    "render flakyWorld slope 256 [] None ?S = colorize flakyWorld slope 256 [] None cs [[SNum 2]]"
    by blast
  then have d: "doneErr (render flakyWorld slope 256 [] None ?S) = None"
    by (simp add: colorize_def flakyWorld_def)
  from a have a': "filter isRead (calls (render flakyWorld slope 256 [] None ?S))
       = [ReadRasters 2 (-80, 45 / 2, -70, 30) 256 256, ReadRasters 2 (-80, 45 / 2, -70, 30) 256 256]"
    by (simp add: i)
  from r0 have r0': "readRasters (selTiff ?S) 0 2 (-80, 45 / 2, -70, 30) 256 256 = Inl ''read failed''"
    by (simp add: i)
  from p h r0' a' d show ?thesis by blast
qed

text \<open>Every read a job makes, the retry included, asks for the box of the whole image.\<close>

lemma reads_of_readWithFallback:
  "c \<in> set (fst (readWithFallback tiff n ci box ts)) \<Longrightarrow> isRead c \<Longrightarrow>
     \<exists>i. c = ReadRasters i box ts ts"
  by (auto simp: readWithFallback_def Let_def split: sum.splits)

lemma every_read_uses_source_extent:
  assumes "prepare w tileBounds ts px cache = Inr sel"
    and "c \<in> set (filter isRead (calls (render w layerName ts px cache sel)))"
  shows "\<exists>i. c = ReadRasters i (selImgBbox sel) ts ts"
proof -
  let ?smallest = "int (selImageCount sel) - 1"
  have n: "filter isRead (selCalls sel) = []"
    using assms(1) by (rule prepare_no_read)
  from prepare_coarsest_image [OF assms(1)] obtain im where
    g: "getImage (selTiff sel) ?smallest = Inr im" by blast
  define ci where "ci = (if selPixels sel > HARD_LIMIT_SOURCE_PIXELS then ?smallest else selIndex sel)"
  obtain rs res where
    r: "readWithFallback (selTiff sel) (selImageCount sel) ci (selImgBbox sel) ts = (rs, res)"
    by (cases "readWithFallback (selTiff sel) (selImageCount sel) ci (selImgBbox sel) ts") auto
  have "set (filter isRead (calls (render w layerName ts px cache sel))) \<subseteq> set (filter isRead rs)"
  proof (cases "selPixels sel > HARD_LIMIT_SOURCE_PIXELS")
    case True
    show ?thesis
    proof (cases layerName)
      case slope
      with True n show ?thesis
        by (simp add: render_def Let_def transparent_def)
    next
      case fuel
      with True g n r show ?thesis
        by (cases res) (simp_all add: render_def Let_def ci_def failed_def reads_colorize)
    qed
  next
    case False
    with n r show ?thesis
      by (cases res) (simp_all add: render_def Let_def ci_def failed_def reads_colorize)
  qed
  with assms(2) have "c \<in> set (fst (readWithFallback (selTiff sel) (selImageCount sel) ci (selImgBbox sel) ts))"
    and "isRead c"
    using r by auto
  then show ?thesis by (rule reads_of_readWithFallback)
qed

text \<open>
  C2 fails on the code. The size asked of \<open>readRasters\<close> is \<open>tileSize\<close> by
  \<open>tileSize\<close>, but the box asked is \<open>imgBbox\<close>, the extent of the whole image, not the
  box of the tile. Fuel layer, tile 3/2/3, three-level file over \<open>[-80, 22.5, -70, 30]\<close>:
  the one read is for that box, which is not the box of the tile.
\<close>

theorem read_window_is_source_extent:
  "calls (createTile steadyWorld fuel tile_3_2_3 256 None)
     = [FromUrl, GetImageCount, GetImage 0, GetImage 2, GetImage 2,
        ReadRasters 2 (-80, 45 / 2, -70, 30) 256 256, FetchLegend]
   \<and> tileToBBox 2 3 3 \<noteq> (-80, 45 / 2, -70, 30)"
proof -
  let ?S = "pyramidSelection (\<lambda>n i box w h. Inr [[SNum 2]])"
  have r: "renderCogTile steadyWorld fuel tile_3_2_3 256 px None
      = render steadyWorld fuel 256 px None ?S" for px
    by (simp add: renderCogTile_def tile_3_2_3_def prepare_steady)
  have rd: "readWithFallback (pyramidTiff (\<lambda>n i box w h. Inr [[SNum 2]])) 3 2 (-80, 45 / 2, -70, 30) 256
      = ([ReadRasters 2 (-80, 45 / 2, -70, 30) 256 256], Inr [[SNum 2]])"
    by (simp add: readWithFallback_def pyramidTiff_def)
  have c: "calls (render steadyWorld fuel 256 px None ?S)
     = [FromUrl, GetImageCount, GetImage 0, GetImage 2, GetImage 2,
        ReadRasters 2 (-80, 45 / 2, -70, 30) 256 256, FetchLegend]" for px
    by (simp add: render_def pyramidSelection_def HARD_LIMIT_SOURCE_PIXELS_def rd
        colorize_def steadyWorld_def fetchFuelLegend_def)
  from tileToBBox_2_3_3 obtain L where t: "tileToBBox 2 3 3 = (-90, 0, -45, L)" by blast
  have "tileToBBox 2 3 3 \<noteq> (-80, 45 / 2, -70, 30)" by (simp add: t)
  with c r show ?thesis by (simp add: createTile_def)
qed


subsection \<open>The throttle\<close>

text \<open>
  The release is in a \<open>finally\<close> block: when the body of an admitted job settles, by
  return or by throw alike, the counter goes down by one and the job is no longer running,
  so it cannot release again.
\<close>

lemma settle_releases:
  assumes "step (Settle j how) g = Some g'"
  shows "activeRequests g' = activeRequests g - 1 \<and> released g' = released g @ [j]
     \<and> j \<notin> set (running g') \<and> step (Settle j Throws) g = step (Settle j Returns) g"
  using assms by (auto simp: Let_def split: if_splits list.splits)

text \<open>
  C4 fails on the code. Six jobs are admitted and a seventh waits. Job 1 throws: its
  \<open>finally\<close> block brings the counter to 5 and calls the resolver of job 7. An eighth call
  that runs before the continuation of job 7 finds 5 below the maximum and is admitted;
  job 7 then resumes and increments without testing again. Seven jobs are running, one
  more than \<open>MAX_CONCURRENT\<close>.
\<close>

theorem throttle_over_admission:
  "runGate [Call 1, Call 2, Call 3, Call 4, Call 5, Call 6, Call 7, Settle 1 Throws, Call 8, Resume 7]
      initialGate
     = Some \<lparr>activeRequests = 7, pendingQueue = [], woken = [], running = [7, 8, 6, 5, 4, 3, 2],
             released = [1]\<rparr>
   \<and> int MAX_CONCURRENT < 7"
  by (simp add: initialGate_def known_def MAX_CONCURRENT_def)

end
